theory Spec2Isabelle
  imports Main
begin

section \<open>The download queue of \<open>app.py\<close>\<close>

text \<open>
  A job is the dict built by \<open>add_to_queue\<close> (and by the two Telegram sync handlers).
  The dict is shared by reference between the queue, the drain loop and the Runner
  thread; the field \<open>obj\<close> stands for the identity of the dict object, so that a write
  through a reference held by another thread can be told from a write to another job
  with the same \<open>id\<close>. Timestamps are readings of the clock.
\<close>

datatype status = Queued | Active | Paused | Completed | Failed

datatype job_ident = Int_id int | Str_id string

type_synonym timestamp = int

record job =
  obj :: nat
  job_id :: job_ident
  username :: string
  platform :: string
  url :: "string option"
  folder :: "string option"
  status :: status
  message :: string
  process :: "nat option"
  started_at :: "timestamp option"
  completed_at :: "timestamp option"
  files_downloaded :: int

text \<open>The dict literal of \<open>add_to_queue\<close>.\<close>

definition new_job :: "nat \<Rightarrow> job_ident \<Rightarrow> string \<Rightarrow> string \<Rightarrow> string option \<Rightarrow> string option \<Rightarrow> job" where
  "new_job r i u p l f =
     \<lparr>obj = r, job_id = i, username = u, platform = p, url = l, folder = f,
      status = Queued, message = ''Waiting in queue...'', process = None,
      started_at = None, completed_at = None, files_downloaded = 0\<rparr>"

subsection \<open>One pass of \<open>process_queue\<close> under the queue lock\<close>

definition active_count :: "job list \<Rightarrow> nat" where
  "active_count q = length (filter (\<lambda>j. status j = Active) q)"

definition queued_count :: "job list \<Rightarrow> nat" where
  "queued_count q = length (filter (\<lambda>j. status j = Queued) q)"

text \<open>The \<open>for job in download_queue: if job['status'] == 'queued': ...; break\<close> scan.\<close>

fun find_next_job :: "job list \<Rightarrow> job option" where
  "find_next_job [] = None"
| "find_next_job (j # q) = (if status j = Queued then Some j else find_next_job q)"

text \<open>The three assignments to \<open>next_job\<close>, made through the reference \<open>r\<close>.\<close>

definition admit :: "timestamp \<Rightarrow> job \<Rightarrow> job" where
  "admit now j = j\<lparr>status := Active, started_at := Some now, message := ''Starting download...''\<rparr>"

definition mark_active :: "timestamp \<Rightarrow> nat \<Rightarrow> job list \<Rightarrow> job list" where
  "mark_active now r q = map (\<lambda>j. if obj j = r then admit now j else j) q"

datatype pass_result = Return | Sleep_continue | Dispatch nat

definition drain_decide :: "int \<Rightarrow> nat \<Rightarrow> job option \<Rightarrow> job list \<Rightarrow> pass_result" where
  "drain_decide max_concurrent n next_job q =
     (case next_job of
        None \<Rightarrow> if queued_count q = 0 then Return else Sleep_continue
      | Some j \<Rightarrow>
          if int n \<ge> max_concurrent
          then (if queued_count q = 0 then Return else Sleep_continue)
          else Dispatch (obj j))"

definition drain_pass :: "int \<Rightarrow> timestamp \<Rightarrow> job list \<Rightarrow> pass_result \<times> job list" where
  "drain_pass max_concurrent now q =
     (case drain_decide max_concurrent (active_count q) (find_next_job q) q of
        Dispatch r \<Rightarrow> (Dispatch r, mark_active now r q)
      | res \<Rightarrow> (res, q))"

text \<open>The position of the earliest-inserted queued job, when there is one.\<close>

fun first_queued :: "job list \<Rightarrow> nat option" where
  "first_queued [] = None"
| "first_queued (j # q) =
     (if status j = Queued then Some 0 else map_option Suc (first_queued q))"

subsection \<open>The drain loop, run by one thread\<close>

text \<open>
  \<open>process_queue\<close> reads the setting \<open>max_concurrent_downloads\<close> once, before its
  \<open>while True\<close>, into the local \<open>max_concurrent\<close>. The environment of a pass gives
  the clock and, for comparison, the value the setting has in the database at that
  time; the list of passes bounds the number of iterations that are observed. The
  result is the queue and the references dispatched to Runner threads, in order.
\<close>

record pass_env =
  setting_now :: int
  clock :: timestamp

fun drain_loop :: "int \<Rightarrow> pass_env list \<Rightarrow> job list \<Rightarrow> job list \<times> nat list" where
  "drain_loop max_concurrent [] q = (q, [])"
| "drain_loop max_concurrent (e # es) q =
     (case drain_pass max_concurrent (clock e) q of
        (Return, q') \<Rightarrow> (q', [])
      | (Sleep_continue, q') \<Rightarrow> drain_loop max_concurrent es q'
      | (Dispatch r, q') \<Rightarrow>
          (case drain_loop max_concurrent es q' of (q'', rs) \<Rightarrow> (q'', r # rs)))"

definition process_queue :: "int \<Rightarrow> pass_env list \<Rightarrow> job list \<Rightarrow> job list \<times> nat list" where
  "process_queue setting_at_start es q = drain_loop setting_at_start es q"

text \<open>
  The drain loop as the specification words it, with the setting read again on each
  pass. This definition follows the specification, not the source.
\<close>

fun drain_loop_reread :: "pass_env list \<Rightarrow> job list \<Rightarrow> job list \<times> nat list" where
  "drain_loop_reread [] q = (q, [])"
| "drain_loop_reread (e # es) q =
     (case drain_pass (setting_now e) (clock e) q of
        (Return, q') \<Rightarrow> (q', [])
      | (Sleep_continue, q') \<Rightarrow> drain_loop_reread es q'
      | (Dispatch r, q') \<Rightarrow>
          (case drain_loop_reread es q' of (q'', rs) \<Rightarrow> (q'', r # rs)))"

subsection \<open>The queue under interleaving\<close>

text \<open>
  Every \<open>with queue_lock\<close> block of the HTTP handlers is one action. The locked block
  of \<open>process_queue\<close> is split at its statements (the count, the scan and decision,
  the mark), because the Runner threads write to their job without taking the lock
  and so may run between them; \<open>lock\<close> records how far the drain thread that holds
  the lock has come, with its locals. A Runner writes through its reference at any
  time; the only statuses it assigns are \<open>completed\<close> and \<open>failed\<close>.
\<close>

datatype lock_state = Lock_free | Drain_counted nat | Drain_selected nat

record sys =
  download_queue :: "job list"
  queue_id_counter :: int
  next_obj :: nat
  lock :: lock_state

definition init_sys :: sys where
  "init_sys = \<lparr>download_queue = [], queue_id_counter = 0, next_obj = 0, lock = Lock_free\<rparr>"

datatype runner_write =
    Set_status_completed
  | Set_status_failed
  | Set_message string
  | Set_files_downloaded int
  | Set_completed_at timestamp
  | Set_process "nat option"

fun apply_write :: "runner_write \<Rightarrow> job \<Rightarrow> job" where
  "apply_write Set_status_completed j = j\<lparr>status := Completed\<rparr>"
| "apply_write Set_status_failed j = j\<lparr>status := Failed\<rparr>"
| "apply_write (Set_message m) j = j\<lparr>message := m\<rparr>"
| "apply_write (Set_files_downloaded n) j = j\<lparr>files_downloaded := n\<rparr>"
| "apply_write (Set_completed_at t) j = j\<lparr>completed_at := Some t\<rparr>"
| "apply_write (Set_process p) j = j\<lparr>process := p\<rparr>"

definition write_job :: "nat \<Rightarrow> runner_write \<Rightarrow> job list \<Rightarrow> job list" where
  "write_job r w q = map (\<lambda>j. if obj j = r then apply_write w j else j) q"

text \<open>The handlers; \<open>None\<close> is the 404 answer, which leaves the queue as it was.\<close>

fun api_queue_pause :: "job_ident \<Rightarrow> job list \<Rightarrow> job list option" where
  "api_queue_pause i [] = None"
| "api_queue_pause i (j # q) =
     (if job_id j = i \<and> status j = Active then Some (j\<lparr>status := Paused\<rparr> # q)
      else map_option ((#) j) (api_queue_pause i q))"

fun api_queue_resume :: "job_ident \<Rightarrow> job list \<Rightarrow> job list option" where
  "api_queue_resume i [] = None"
| "api_queue_resume i (j # q) =
     (if job_id j = i \<and> status j = Paused
      then Some (j\<lparr>status := Queued, message := ''Resuming...''\<rparr> # q)
      else map_option ((#) j) (api_queue_resume i q))"

fun api_queue_delete :: "job_ident \<Rightarrow> job list \<Rightarrow> job list option" where
  "api_queue_delete i [] = None"
| "api_queue_delete i (j # q) =
     (if job_id j = i then Some q else map_option ((#) j) (api_queue_delete i q))"

definition api_queue_clear :: "job list \<Rightarrow> job list" where
  "api_queue_clear q = filter (\<lambda>j. status j \<noteq> Completed \<and> status j \<noteq> Failed) q"

datatype action =
    Get_next_queue_id
  | Append_job job_ident string string "string option" "string option"
  | Drain_count
  | Drain_select
  | Drain_mark timestamp
  | Api_pause job_ident
  | Api_resume job_ident
  | Api_delete job_ident
  | Api_clear
  | Factory_reset
  | Runner_write nat runner_write

definition locked :: "sys \<Rightarrow> (job list \<Rightarrow> job list) \<Rightarrow> sys option" where
  "locked s f = (if lock s = Lock_free then Some (s\<lparr>download_queue := f (download_queue s)\<rparr>) else None)"

definition or_unchanged :: "(job list \<Rightarrow> job list option) \<Rightarrow> job list \<Rightarrow> job list" where
  "or_unchanged f q = (case f q of None \<Rightarrow> q | Some q' \<Rightarrow> q')"

text \<open>
  One action of some thread, for drain loops that all read the cap \<open>max_concurrent\<close>;
  \<open>None\<close> when the action cannot run in this state (the lock is taken, or the drain
  thread is not at that statement).
\<close>

fun step :: "int \<Rightarrow> action \<Rightarrow> sys \<Rightarrow> sys option" where
  "step mc Get_next_queue_id s =
     (if lock s = Lock_free then Some (s\<lparr>queue_id_counter := queue_id_counter s + 1\<rparr>) else None)"
| "step mc (Append_job i u p l f) s =
     (if lock s = Lock_free
      then Some (s\<lparr>download_queue := download_queue s @ [new_job (next_obj s) i u p l f],
                   next_obj := Suc (next_obj s)\<rparr>)
      else None)"
| "step mc Drain_count s =
     (if lock s = Lock_free then Some (s\<lparr>lock := Drain_counted (active_count (download_queue s))\<rparr>)
      else None)"
| "step mc Drain_select s =
     (case lock s of
        Drain_counted n \<Rightarrow>
          (case drain_decide mc n (find_next_job (download_queue s)) (download_queue s) of
             Dispatch r \<Rightarrow> Some (s\<lparr>lock := Drain_selected r\<rparr>)
           | _ \<Rightarrow> Some (s\<lparr>lock := Lock_free\<rparr>))
      | _ \<Rightarrow> None)"
| "step mc (Drain_mark now) s =
     (case lock s of
        Drain_selected r \<Rightarrow>
          Some (s\<lparr>download_queue := mark_active now r (download_queue s), lock := Lock_free\<rparr>)
      | _ \<Rightarrow> None)"
| "step mc (Api_pause i) s = locked s (or_unchanged (api_queue_pause i))"
| "step mc (Api_resume i) s = locked s (or_unchanged (api_queue_resume i))"
| "step mc (Api_delete i) s = locked s (or_unchanged (api_queue_delete i))"
| "step mc Api_clear s = locked s api_queue_clear"
| "step mc Factory_reset s = locked s (\<lambda>q. [])"
| "step mc (Runner_write r w) s =
     Some (s\<lparr>download_queue := write_job r w (download_queue s)\<rparr>)"

fun exec :: "int \<Rightarrow> action list \<Rightarrow> sys \<Rightarrow> sys option" where
  "exec mc [] s = Some s"
| "exec mc (a # as) s = (case step mc a s of None \<Rightarrow> None | Some s' \<Rightarrow> exec mc as s')"

text \<open>What holds in every reachable state of the queue, for the cap \<open>mc\<close>.\<close>

definition cap_inv :: "int \<Rightarrow> sys \<Rightarrow> bool" where
  "cap_inv mc s =
     (distinct (map obj (download_queue s))
      \<and> list_all (\<lambda>j. obj j < next_obj s) (download_queue s)
      \<and> int (active_count (download_queue s)) \<le> mc
      \<and> (case lock s of
            Lock_free \<Rightarrow> True
          | Drain_counted n \<Rightarrow> active_count (download_queue s) \<le> n
          | Drain_selected r \<Rightarrow> int (active_count (download_queue s)) < mc))"

text \<open>
  A schedule in which two drain passes and a Runner write interleave, for the cap 1.
\<close>

definition race_trace :: "action list" where
  "race_trace =
     [Get_next_queue_id, Append_job (Int_id 1) ''a'' ''tiktok'' None None,
      Get_next_queue_id, Append_job (Int_id 2) ''b'' ''tiktok'' None None,
      Drain_count, Drain_select, Drain_mark 5,
      Drain_count, Runner_write 0 (Set_message ''Initializing gallery-dl...''), Drain_select]"

section \<open>Strings\<close>

text \<open>
  Strings are lists of characters. \<open>str_int\<close> is Python's \<open>str\<close> on an \<open>int\<close>, as an
  f-string renders it; \<open>contains\<close> is the operator \<open>in\<close> on strings; \<open>lower\<close> and
  \<open>strip\<close> are the string methods on ASCII text.
\<close>

definition digit_char :: "nat \<Rightarrow> char" where
  "digit_char d = ''0123456789'' ! d"

fun str_nat :: "nat \<Rightarrow> string" where
  "str_nat n = (if n < 10 then [digit_char n] else str_nat (n div 10) @ [digit_char (n mod 10)])"

declare str_nat.simps [simp del]

definition str_int :: "int \<Rightarrow> string" where
  "str_int i = (if i < 0 then CHR ''-'' # str_nat (nat (- i)) else str_nat (nat i))"

fun starts_with :: "string \<Rightarrow> string \<Rightarrow> bool" where
  "starts_with [] s = True"
| "starts_with (p # ps) [] = False"
| "starts_with (p # ps) (c # cs) = (p = c \<and> starts_with ps cs)"

fun contains :: "string \<Rightarrow> string \<Rightarrow> bool" where
  "contains p [] = (p = [])"
| "contains p (c # cs) = (starts_with p (c # cs) \<or> contains p cs)"

definition lower_char :: "char \<Rightarrow> char" where
  "lower_char c =
     (let n = (of_char c :: nat) in if 65 \<le> n \<and> n \<le> 90 then char_of (n + 32) else c)"

definition lower :: "string \<Rightarrow> string" where
  "lower s = map lower_char s"

definition is_space :: "char \<Rightarrow> bool" where
  "is_space c = (let n = (of_char c :: nat) in (9 \<le> n \<and> n \<le> 13) \<or> (28 \<le> n \<and> n \<le> 32))"

definition strip :: "string \<Rightarrow> string" where
  "strip s = rev (dropWhile is_space (rev (dropWhile is_space s)))"

fun split_on :: "char \<Rightarrow> string \<Rightarrow> string list" where
  "split_on c [] = [] # []"
| "split_on c (x # xs) =
     (if x = c then [] # split_on c xs
      else (case split_on c xs of w # ws \<Rightarrow> (x # w) # ws | [] \<Rightarrow> [x] # []))"

section \<open>The Runner of \<open>app.py\<close>: \<open>run_download\<close>\<close>

text \<open>
  The Runner works on the job dict it was handed, which the HTTP handlers and the drain
  loop may write to meanwhile. Its environment gives what it observes: whether the
  output directory can be made, whether the subprocess starts, the lines that
  \<open>readline\<close> returns with the readings of \<open>time.time()\<close> taken at
  \<open>last_activity = time.time()\<close> and at the timeout check of the same iteration, the
  writes other threads made to the job before each read, and how the output ends.
  \<open>readline\<close> blocks until a line arrives, so the body of the loop runs once per line.
\<close>

datatype ext_write = Ext_pause | Ext_resume | Ext_admit timestamp

fun apply_ext :: "ext_write \<Rightarrow> job \<Rightarrow> job" where
  "apply_ext Ext_pause j = (if status j = Active then j\<lparr>status := Paused\<rparr> else j)"
| "apply_ext Ext_resume j =
     (if status j = Paused then j\<lparr>status := Queued, message := ''Resuming...''\<rparr> else j)"
| "apply_ext (Ext_admit now) j = (if status j = Queued then admit now j else j)"

definition apply_exts :: "ext_write list \<Rightarrow> job \<Rightarrow> job" where
  "apply_exts ws j = fold apply_ext ws j"

record read_event =
  ext :: "ext_write list"
  line :: string
  t_read :: int
  t_check :: int

datatype emoji = Camera | Notes | Heart

datatype notification =
    Notify_downloaded emoji string int
  | Notify_up_to_date emoji string
  | Notify_failed emoji string string

record runner_env =
  mkdir_fails :: bool
  popen_error :: "string option"
  pid :: nat
  reads :: "read_event list"
  ext_at_eof :: "ext_write list"
  read_error :: "string option"
  returncode :: int
  sync_error :: "string option"
  t_final :: timestamp

record run_result =
  final_job :: job
  terminate_called :: bool
  notifications :: "notification list"
  last_sync_updated :: bool

definition timeout_minutes :: int where
  "timeout_minutes = 10"

text \<open>The \<open>if line:\<close> block: one stripped line, the job and \<open>files_count\<close>.\<close>

definition parse_line :: "string \<Rightarrow> job \<Rightarrow> int \<Rightarrow> job \<times> int" where
  "parse_line l j files_count =
     (if l = [] then (j, files_count)
      else if contains ''Downloading'' l \<or> contains ''.jpg'' l \<or> contains ''.mp4'' l
              \<or> contains ''.png'' l
      then (j\<lparr>files_downloaded := files_count + 1,
               message := ''Downloaded '' @ str_int (files_count + 1) @ '' files...''\<rparr>,
            files_count + 1)
      else if contains ''Skipping'' l then (j\<lparr>message := take 80 l\<rparr>, files_count)
      else if contains ''error'' (lower l) \<or> contains ''Error'' l
      then (j\<lparr>message := ''Error: '' @ take 60 l\<rparr>, files_count)
      else if length l > 10 then (j\<lparr>message := take 80 l\<rparr>, files_count)
      else (j, files_count))"

datatype loop_ctl = Continue | Exit_paused | Exit_timeout

text \<open>The body of \<open>for line in iter(process.stdout.readline, '')\<close>.\<close>

definition loop_body :: "read_event \<Rightarrow> job \<Rightarrow> int \<Rightarrow> loop_ctl \<times> job \<times> int" where
  "loop_body e j files_count =
     (let j1 = apply_exts (ext e) j in
      if status j1 = Paused then (Exit_paused, j1\<lparr>message := ''Download paused''\<rparr>, files_count)
      else
        (case parse_line (strip (line e)) j1 files_count of
           (j2, fc2) \<Rightarrow>
             if t_check e - t_read e > timeout_minutes * 60
             then (Exit_timeout,
                   j2\<lparr>status := Failed,
                      message := ''Timeout after '' @ str_int timeout_minutes
                                 @ '' minutes of inactivity'',
                      completed_at := Some (t_check e)\<rparr>, fc2)
             else (Continue, j2, fc2)))"

fun read_loop :: "read_event list \<Rightarrow> job \<Rightarrow> int \<Rightarrow> loop_ctl \<times> job \<times> int" where
  "read_loop [] j files_count = (Continue, j, files_count)"
| "read_loop (e # es) j files_count =
     (case loop_body e j files_count of
        (Continue, j', fc') \<Rightarrow> read_loop es j' fc'
      | r \<Rightarrow> r)"

text \<open>The job as it stands after each iteration of the loop, in order.\<close>

fun loop_trace :: "read_event list \<Rightarrow> job \<Rightarrow> int \<Rightarrow> job list" where
  "loop_trace [] j files_count = []"
| "loop_trace (e # es) j files_count =
     (case loop_body e j files_count of
        (Continue, j', fc') \<Rightarrow> j' # loop_trace es j' fc'
      | (_, j', _) \<Rightarrow> [j'])"

text \<open>The code after the loop: \<open>process.wait()\<close> and the exit code.\<close>

definition after_loop :: "runner_env \<Rightarrow> job \<Rightarrow> int \<Rightarrow> job \<times> bool" where
  "after_loop env j files_count =
     (case read_error env of
        Some msg \<Rightarrow> (j\<lparr>status := Failed, message := ''Error: '' @ msg\<rparr>, False)
      | None \<Rightarrow>
          if returncode env = 0
          then (case sync_error env of
                  None \<Rightarrow>
                    (j\<lparr>status := Completed,
                       message := ''Completed! Downloaded '' @ str_int files_count @ '' files''\<rparr>,
                     True)
                | Some msg \<Rightarrow> (j\<lparr>status := Failed, message := ''Error: '' @ msg\<rparr>, False))
          else (j\<lparr>status := Failed,
                  message := ''Failed with exit code '' @ str_int (returncode env)\<rparr>, False))"

definition emoji_of :: "string \<Rightarrow> emoji" where
  "emoji_of p = (if p = ''instagram'' then Camera else if p = ''tiktok'' then Notes else Heart)"

definition display_username :: "string \<Rightarrow> string \<Rightarrow> string" where
  "display_username p u =
     (if p = ''coomer'' \<and> CHR ''/'' \<in> set u
      then (case split_on CHR ''/'' u of _ # d # _ \<Rightarrow> d | _ \<Rightarrow> u)
      else u)"

text \<open>The \<open>finally\<close> block; it returns the job and the one notification it sends.\<close>

definition finally_block :: "timestamp \<Rightarrow> int \<Rightarrow> job \<Rightarrow> job \<times> notification" where
  "finally_block now files_count j =
     (let j' = j\<lparr>completed_at := Some now, process := None\<rparr>;
          em = emoji_of (platform j);
          d = display_username (platform j) (username j)
      in (j', if status j' = Completed
              then (if files_count > 0 then Notify_downloaded em d files_count
                    else Notify_up_to_date em d)
              else Notify_failed em d (message j')))"

definition run_download :: "runner_env \<Rightarrow> job \<Rightarrow> run_result" where
  "run_download env j =
     (if mkdir_fails env
      then \<lparr>final_job = j, terminate_called = False, notifications = [],
            last_sync_updated = False\<rparr>
      else
        (case popen_error env of
           Some msg \<Rightarrow>
             (case finally_block (t_final env) 0
                     (j\<lparr>message := ''Error: '' @ msg, status := Failed\<rparr>) of
                (j', n) \<Rightarrow> \<lparr>final_job = j', terminate_called = False, notifications = [n],
                              last_sync_updated = False\<rparr>)
         | None \<Rightarrow>
             (case read_loop (reads env)
                     (j\<lparr>message := ''Initializing gallery-dl...'', process := Some (pid env)\<rparr>) 0 of
                (Continue, j1, fc) \<Rightarrow>
                  (case after_loop env (apply_exts (ext_at_eof env) j1) fc of
                     (j2, synced) \<Rightarrow>
                       (case finally_block (t_final env) fc j2 of
                          (j', n) \<Rightarrow> \<lparr>final_job = j', terminate_called = False,
                                        notifications = [n], last_sync_updated = synced\<rparr>))
              | (_, j1, fc) \<Rightarrow>
                  (case finally_block (t_final env) fc j1 of
                     (j', n) \<Rightarrow> \<lparr>final_job = j', terminate_called = True,
                                   notifications = [n], last_sync_updated = False\<rparr>))))"

text \<open>
  Three runs of the Runner on the admitted job \<open>job0\<close>. In \<open>stalled_env\<close> the second
  line arrives an hour after the first and the process then exits with code 0. In
  \<open>paused_env\<close> the job is paused through the API before the second line is read. In
  \<open>resumed_job\<close> the job was run before, counted three files, was paused and resumed.
\<close>

definition job0 :: job where
  "job0 = admit 0 (new_job 0 (Int_id 1) ''bob'' ''tiktok'' None None)"

definition stalled_env :: runner_env where
  "stalled_env =
     \<lparr>mkdir_fails = False, popen_error = None, pid = 7,
      reads = [\<lparr>ext = [], line = ''starting extractor'' @ [CHR 0x0A], t_read = 0, t_check = 0\<rparr>,
               \<lparr>ext = [], line = ''still here now'' @ [CHR 0x0A], t_read = 3600, t_check = 3600\<rparr>],
      ext_at_eof = [], read_error = None, returncode = 0, sync_error = None, t_final = 3601\<rparr>"

definition paused_env :: runner_env where
  "paused_env =
     \<lparr>mkdir_fails = False, popen_error = None, pid = 7,
      reads = [\<lparr>ext = [], line = ''a/b/1.jpg'' @ [CHR 0x0A], t_read = 0, t_check = 0\<rparr>,
               \<lparr>ext = [Ext_pause], line = ''a/b/2.jpg'' @ [CHR 0x0A], t_read = 5, t_check = 5\<rparr>],
      ext_at_eof = [], read_error = None, returncode = - 15, sync_error = None, t_final = 6\<rparr>"

definition resumed_job :: job where
  "resumed_job = job0\<lparr>status := Paused, files_downloaded := 3\<rparr>"

section \<open>The GoFile downloader of \<open>gofile_downloader.py\<close>\<close>

subsection \<open>Paths\<close>

text \<open>
  The functions of \<open>os.path\<close> that the module calls, as \<open>posixpath\<close> defines them.
  \<open>rfind\<close> is \<open>str.rfind\<close> for a single character; \<open>rfind_int\<close> gives Python's -1
  when the character does not occur.
\<close>

definition path_join :: "string \<Rightarrow> string \<Rightarrow> string" where
  "path_join a b =
     (if starts_with ''/'' b then b
      else if a = [] \<or> last a = CHR ''/'' then a @ b
      else a @ ''/'' @ b)"

fun rfind :: "char \<Rightarrow> string \<Rightarrow> nat option" where
  "rfind c [] = None"
| "rfind c (x # xs) =
     (case rfind c xs of
        Some i \<Rightarrow> Some (Suc i)
      | None \<Rightarrow> if x = c then Some 0 else None)"

definition rfind_int :: "char \<Rightarrow> string \<Rightarrow> int" where
  "rfind_int c s = (case rfind c s of None \<Rightarrow> - 1 | Some i \<Rightarrow> int i)"

definition splitext :: "string \<Rightarrow> string \<times> string" where
  "splitext p =
     (let sepIndex = rfind_int CHR ''/'' p; dotIndex = rfind_int CHR ''.'' p
      in if dotIndex > sepIndex
            \<and> list_ex (\<lambda>k. p ! k \<noteq> CHR ''.'') [nat (sepIndex + 1) ..< nat dotIndex]
         then (take (nat dotIndex) p, drop (nat dotIndex) p)
         else (p, []))"

definition basename :: "string \<Rightarrow> string" where
  "basename p = drop (nat (rfind_int CHR ''/'' p + 1)) p"

definition rstrip_sep :: "string \<Rightarrow> string" where
  "rstrip_sep s = rev (dropWhile (\<lambda>c. c = CHR ''/'') (rev s))"

definition dirname :: "string \<Rightarrow> string" where
  "dirname p =
     (let head = take (nat (rfind_int CHR ''/'' p + 1)) p
      in if head \<noteq> [] \<and> head \<noteq> replicate (length head) CHR ''/'' then rstrip_sep head
         else head)"

subsection \<open>The naming-collision table\<close>

type_synonym pathing = "string \<rightharpoonup> int"

definition resolve_naming_collision ::
    "pathing \<Rightarrow> string \<Rightarrow> string \<Rightarrow> bool \<Rightarrow> pathing \<times> string" where
  "resolve_naming_collision pathing_count parent_dir child_name is_dir =
     (let filepath = path_join parent_dir child_name;
          n = (case pathing_count filepath of Some c \<Rightarrow> c + 1 | None \<Rightarrow> 0);
          pc = pathing_count(filepath \<mapsto> n)
      in if n > 0
         then (if is_dir then (pc, filepath @ ''('' @ str_int n @ '')'')
               else (case splitext filepath of
                       (root, extension) \<Rightarrow> (pc, root @ ''('' @ str_int n @ '')'' @ extension)))
         else (pc, filepath))"

text \<open>A sequence of lookups against one table: parent directory, child name, \<open>is_dir\<close>.\<close>

fun resolve_all :: "pathing \<Rightarrow> (string \<times> string \<times> bool) list \<Rightarrow> string list" where
  "resolve_all pc [] = []"
| "resolve_all pc ((d, c, b) # ls) =
     (case resolve_naming_collision pc d c b of (pc', r) \<Rightarrow> r # resolve_all pc' ls)"

text \<open>
  The resolver as the specification words it: the candidate path of a lookup, the number
  of earlier lookups of the sequence with the same candidate path, and the name that
  the occurrence number \<open>n\<close> gives. These three definitions follow the specification.
\<close>

definition candidate :: "string \<times> string \<times> bool \<Rightarrow> string" where
  "candidate l = (case l of (d, c, b) \<Rightarrow> path_join d c)"

definition occurrence :: "(string \<times> string \<times> bool) list \<Rightarrow> nat \<Rightarrow> nat" where
  "occurrence ls k = length (filter (\<lambda>l. candidate l = candidate (ls ! k)) (take k ls))"

definition suffixed :: "string \<Rightarrow> nat \<Rightarrow> bool \<Rightarrow> string" where
  "suffixed filepath n is_dir =
     (if n = 0 then filepath
      else if is_dir then filepath @ ''('' @ str_nat n @ '')''
      else fst (splitext filepath) @ ''('' @ str_nat n @ '')'' @ snd (splitext filepath))"

subsection \<open>The content tree\<close>

text \<open>
  \<open>_build_content_tree\<close> asks the API for a content id and, for a folder, calls itself
  on each child that is a folder. What the API answers is the environment: \<open>content\<close>
  is the answer to one request, as far as the code looks at it, and a folder entry
  carries the answer that the request for its id will get. Each entry also carries what
  \<open>stop_event.is_set()\<close> gives when the loop over the children reaches it.
  \<open>Fetch_failed\<close> is a request for which \<open>_get_response\<close> gave nothing usable (with the
  errors it logged), \<open>Parse_failed\<close> one whose body is not JSON, \<open>Api_error\<close> a status
  other than \<open>ok\<close>, \<open>Protected\<close> content whose password was not accepted.
\<close>

datatype content =
    Fetch_failed "string list"
  | Parse_failed string
  | Api_error string
  | Protected
  | Single_file string string
  | Folder string "entry list"
and entry =
    File_entry bool string string
  | Folder_entry bool string content

record file_info =
  path :: string
  filename :: string
  link :: string

record build_state =
  pathing_count :: pathing
  file_index :: nat
  files_info :: "(string \<times> file_info) list"
  errors :: "string list"

definition init_build :: build_state where
  "init_build = \<lparr>pathing_count = Map.empty, file_index = 0, files_info = [], errors = []\<rparr>"

definition register_file :: "string \<Rightarrow> string \<Rightarrow> build_state \<Rightarrow> build_state" where
  "register_file filepath file_url st =
     st\<lparr>files_info := files_info st
            @ [(str_nat (file_index st),
                \<lparr>path = dirname filepath, filename = basename filepath, link = file_url\<rparr>)],
        file_index := Suc (file_index st)\<rparr>"

definition content_url :: "string \<Rightarrow> string option \<Rightarrow> string" where
  "content_url content_id password_hash =
     ''https://api.gofile.io/contents/'' @ content_id
       @ ''?cache=true&sortField=createTime&sortDirection=1''
       @ (case password_hash of None \<Rightarrow> [] | Some h \<Rightarrow> if h = [] then [] else ''&password='' @ h)"

definition add_error :: "string \<Rightarrow> build_state \<Rightarrow> build_state" where
  "add_error e st = st\<lparr>errors := errors st @ [e]\<rparr>"

definition resolve_in ::
    "string \<Rightarrow> string \<Rightarrow> bool \<Rightarrow> build_state \<Rightarrow> build_state \<times> string" where
  "resolve_in parent_dir child_name is_dir st =
     (case resolve_naming_collision (pathing_count st) parent_dir child_name is_dir of
        (pc, r) \<Rightarrow> (st\<lparr>pathing_count := pc\<rparr>, r))"

fun build_content_tree ::
    "string option \<Rightarrow> string \<Rightarrow> string \<Rightarrow> content \<Rightarrow> build_state \<Rightarrow> build_state"
and build_children ::
    "string option \<Rightarrow> string \<Rightarrow> entry list \<Rightarrow> build_state \<Rightarrow> build_state" where
  "build_content_tree ph parent_dir content_id (Fetch_failed errs) st =
     add_error (''Failed to fetch content from '' @ content_url content_id ph)
       (st\<lparr>errors := errors st @ errs\<rparr>)"
| "build_content_tree ph parent_dir content_id (Parse_failed e) st =
     add_error (''Failed to parse response: '' @ e) st"
| "build_content_tree ph parent_dir content_id (Api_error s) st =
     add_error (''API error: '' @ s) st"
| "build_content_tree ph parent_dir content_id Protected st =
     add_error ''Content is password protected. Please provide the correct password.'' st"
| "build_content_tree ph parent_dir content_id (Single_file nm lnk) st =
     (case resolve_in parent_dir nm False st of
        (st', filepath) \<Rightarrow> register_file filepath lnk st')"
| "build_content_tree ph parent_dir content_id (Folder folder_name children) st =
     (case resolve_in parent_dir folder_name True st of
        (st', resolved) \<Rightarrow>
          build_children ph
            (if basename parent_dir = content_id then parent_dir else resolved)
            children st')"
| "build_children ph absolute_path [] st = st"
| "build_children ph absolute_path (File_entry stop nm lnk # cs) st =
     (if stop then st
      else (case resolve_in absolute_path nm False st of
              (st', filepath) \<Rightarrow>
                build_children ph absolute_path cs (register_file filepath lnk st')))"
| "build_children ph absolute_path (Folder_entry stop child_id c # cs) st =
     (if stop then st
      else build_children ph absolute_path cs
             (build_content_tree ph absolute_path child_id c st))"

text \<open>
  The table after the lookups \<open>pre\<close>, starting from the empty table: a candidate path
  looked up \<open>c > 0\<close> times is mapped to \<open>c - 1\<close>.
\<close>

definition tab :: "(string \<times> string \<times> bool) list \<Rightarrow> pathing" where
  "tab pre = (\<lambda>fp. let c = length (filter (\<lambda>l. candidate l = fp) pre)
                    in if c = 0 then None else Some (int c - 1))"

subsection \<open>Requests\<close>

text \<open>
  \<open>_get_response\<close> tries a GET up to \<open>number_retries\<close> times; the environment gives the
  outcome of each try. A timeout is passed over, another exception is logged in
  \<open>_errors\<close> and passed over, and the first response is returned whatever its status.
\<close>

datatype 'r get_outcome = Got 'r | Timed_out | Raised string

fun get_response :: "'r get_outcome list \<Rightarrow> string list \<Rightarrow> 'r option \<times> string list" where
  "get_response [] errs = (None, errs)"
| "get_response (Got r # os) errs = (Some r, errs)"
| "get_response (Timed_out # os) errs = get_response os errs"
| "get_response (Raised e # os) errs = get_response os (errs @ [e])"

text \<open>
  What \<open>_download_file\<close> looks at in a response. \<open>truthy\<close> is the value of the object in
  \<open>if not response\<close>. A header is absent (or empty), or not a number (with the text of
  the exception that \<open>int\<close> raises), or a number. \<open>chunks\<close> are the chunks the body
  yields, each with what \<open>stop_event.is_set()\<close> gives before it is written and its
  length; \<open>stream_end\<close> is how the iteration over the body ends.
\<close>

datatype header = Absent | Unparsable string | Number int

datatype stream_end = Stream_done | Stream_timeout | Stream_raised string

record response =
  truthy :: bool
  status_code :: int
  content_length :: header
  content_range :: header
  chunks :: "(bool \<times> nat) list"
  stream_end :: stream_end

text \<open>
  The library fact about \<open>requests.Response\<close>: its truth value is its property \<open>ok\<close>,
  false exactly for the status codes from 400 to 599.
\<close>

definition response_ok :: "int \<Rightarrow> bool" where
  "response_ok s = (\<not> (400 \<le> s \<and> s < 600))"

record attempt_env =
  stop_set :: bool
  part_size :: nat
  gets :: "response get_outcome list"

record dl_state =
  d_errors :: "string list"
  d_files_downloaded :: nat

datatype attempt_result = Returned bool | Next_attempt

text \<open>The total size: \<open>Inl\<close> is the exception raised by \<open>int\<close>.\<close>

definition total_size_of :: "nat \<Rightarrow> response \<Rightarrow> string + int" where
  "total_size_of part r =
     (if part = 0
      then (case content_length r of
              Absent \<Rightarrow> Inr 0 | Unparsable x \<Rightarrow> Inl x | Number n \<Rightarrow> Inr n)
      else (case content_range r of
              Absent \<Rightarrow> Inr 0 | Unparsable x \<Rightarrow> Inl x | Number n \<Rightarrow> Inr n))"

text \<open>The loop over the chunks: \<open>None\<close> when the stop event ends it, else the bytes on disk.\<close>

fun stream_chunks :: "(bool \<times> nat) list \<Rightarrow> nat \<Rightarrow> nat option" where
  "stream_chunks [] downloaded = Some downloaded"
| "stream_chunks ((stop, n) # cs) downloaded =
     (if stop then None else stream_chunks cs (downloaded + n))"

definition log_error :: "string \<Rightarrow> dl_state \<Rightarrow> dl_state" where
  "log_error e st = st\<lparr>d_errors := d_errors st @ [e]\<rparr>"

text \<open>One iteration of \<open>for attempt in range(self._number_retries)\<close>.\<close>

definition attempt :: "nat \<Rightarrow> string \<Rightarrow> attempt_env \<Rightarrow> dl_state \<Rightarrow> attempt_result \<times> dl_state" where
  "attempt number_retries fname e st =
     (if stop_set e then (Returned False, st)
      else
        (case get_response (take number_retries (gets e)) (d_errors st) of
           (resp, errs) \<Rightarrow>
             (let st1 = st\<lparr>d_errors := errs\<rparr> in
              case resp of
                None \<Rightarrow> (Next_attempt, st1)
              | Some r \<Rightarrow>
                  if \<not> truthy r then (Next_attempt, st1)
                  else if status_code r \<in> set [403, 404, 405, 500]
                  then (Returned False,
                        log_error (''HTTP '' @ str_int (status_code r) @ '' for '' @ fname) st1)
                  else if part_size e = 0 \<and> status_code r \<notin> set [200, 206]
                  then (Next_attempt, st1)
                  else if part_size e > 0 \<and> status_code r \<noteq> 206 then (Next_attempt, st1)
                  else
                    (case total_size_of (part_size e) r of
                       Inl x \<Rightarrow>
                         (Next_attempt,
                          log_error (''Error downloading '' @ fname @ '': '' @ x) st1)
                     | Inr total_size \<Rightarrow>
                         if total_size = 0
                         then (Returned False,
                               log_error (''Could not determine size for '' @ fname) st1)
                         else
                           (case stream_chunks (chunks r) (part_size e) of
                              None \<Rightarrow> (Returned False, st1)
                            | Some downloaded \<Rightarrow>
                                (case stream_end r of
                                   Stream_timeout \<Rightarrow> (Next_attempt, st1)
                                 | Stream_raised x \<Rightarrow>
                                     (Next_attempt,
                                      log_error (''Error downloading '' @ fname @ '': '' @ x) st1)
                                 | Stream_done \<Rightarrow>
                                     if int downloaded = total_size
                                     then (Returned True,
                                           st1\<lparr>d_files_downloaded :=
                                                 Suc (d_files_downloaded st1)\<rparr>)
                                     else (Next_attempt, st1)))))))"

fun retry_loop :: "nat \<Rightarrow> string \<Rightarrow> attempt_env list \<Rightarrow> dl_state \<Rightarrow> bool \<times> dl_state" where
  "retry_loop number_retries fname [] st = (False, st)"
| "retry_loop number_retries fname (e # es) st =
     (case attempt number_retries fname e st of
        (Returned b, st') \<Rightarrow> (b, st')
      | (Next_attempt, st') \<Rightarrow> retry_loop number_retries fname es st')"

record file_env =
  exists_nonempty :: bool
  stop_at_submit :: bool
  attempts_env :: "attempt_env list"

definition download_file :: "nat \<Rightarrow> file_info \<Rightarrow> file_env \<Rightarrow> dl_state \<Rightarrow> bool \<times> dl_state" where
  "download_file number_retries fi fe st =
     (if exists_nonempty fe then (True, st\<lparr>d_files_downloaded := Suc (d_files_downloaded st)\<rparr>)
      else retry_loop number_retries (filename fi) (take number_retries (attempts_env fe)) st)"

text \<open>
  The status that the specification calls expected: 200 or 206 for a fresh request,
  206 for a range request. This definition follows the specification. An attempt of
  the loop is one with an unexpected status when the stop event is not set and the
  request gets a response, an object of \<open>requests\<close>, whose status is not the expected one.
\<close>

definition expected_status :: "nat \<Rightarrow> int \<Rightarrow> bool" where
  "expected_status part s = (if part = 0 then s = 200 \<or> s = 206 else s = 206)"

definition unexpected_attempt :: "nat \<Rightarrow> attempt_env \<Rightarrow> bool" where
  "unexpected_attempt number_retries e =
     (\<not> stop_set e \<and>
      (case fst (get_response (take number_retries (gets e)) []) of
         None \<Rightarrow> False
       | Some r \<Rightarrow> truthy r = response_ok (status_code r)
                   \<and> \<not> expected_status (part_size e) (status_code r)))"

subsection \<open>\<open>download\<close>\<close>

datatype account_outcome =
    Account_ok string | Account_not_ok | Account_timeout | Account_raised string

text \<open>\<open>_set_account_token\<close> without a token: the loop that creates a guest account.\<close>

fun set_account_token :: "account_outcome list \<Rightarrow> string list \<Rightarrow> bool \<times> string list" where
  "set_account_token [] errs = (False, errs)"
| "set_account_token (Account_ok t # os) errs = (True, errs)"
| "set_account_token (Account_not_ok # os) errs = set_account_token os errs"
| "set_account_token (Account_timeout # os) errs = set_account_token os errs"
| "set_account_token (Account_raised e # os) errs =
     set_account_token os (errs @ [''Account creation failed: '' @ e])"

definition parse_content_id :: "string \<Rightarrow> string option" where
  "parse_content_id u =
     (case dropWhile (\<lambda>p. p \<noteq> ''d'') (split_on CHR ''/'' (rstrip_sep u)) of
        _ # nxt # _ \<Rightarrow> Some nxt
      | _ \<Rightarrow> None)"

text \<open>
  The environment of one call of \<open>download\<close>: the URL and output directory, the SHA-256
  of the password when one was given, the outcomes of the account requests, the answers
  of the content API, and for each registered file, in order, what its worker meets.
  The workers of the pool are run one after the other, in the order of submission.
\<close>

record download_env =
  source_url :: string
  output_dir :: string
  password_hash :: "string option"
  number_retries :: nat
  account :: "account_outcome list"
  tree :: content
  file_envs :: "file_env list"

record download_result =
  success :: bool
  r_files_downloaded :: nat
  r_total_files :: nat
  r_errors :: "string list"
  r_message :: string

fun run_pool ::
    "nat \<Rightarrow> (string \<times> file_info) list \<Rightarrow> file_env list \<Rightarrow> dl_state \<Rightarrow> dl_state" where
  "run_pool n [] fes st = st"
| "run_pool n (f # fs) [] st = st"
| "run_pool n ((k, fi) # fs) (fe # fes) st =
     (if stop_at_submit fe then st
      else run_pool n fs fes (snd (download_file n fi fe st)))"

definition build_of :: "download_env \<Rightarrow> string \<Rightarrow> string list \<Rightarrow> build_state" where
  "build_of env content_id errs =
     build_content_tree (password_hash env) (path_join (output_dir env) content_id) content_id
       (tree env) (init_build\<lparr>errors := errs\<rparr>)"

definition invalid_url :: download_result where
  "invalid_url =
     \<lparr>success = False, r_files_downloaded = 0, r_total_files = 0,
      r_errors = [''Invalid GoFile URL - could not extract content ID''],
      r_message = ''Invalid GoFile URL''\<rparr>"

definition download :: "download_env \<Rightarrow> download_result" where
  "download env =
     (case parse_content_id (source_url env) of
        None \<Rightarrow> invalid_url
      | Some content_id \<Rightarrow>
          if content_id = [] then invalid_url
          else
            (case set_account_token (take (number_retries env) (account env)) [] of
               (False, errs) \<Rightarrow>
                 \<lparr>success = False, r_files_downloaded = 0, r_total_files = 0,
                  r_errors = (if errs = [] then [''Failed to create GoFile account''] else errs),
                  r_message = ''Authentication failed''\<rparr>
             | (True, errs) \<Rightarrow>
                 (let st = build_of env content_id errs in
                  if files_info st = []
                  then (if errors st \<noteq> []
                        then \<lparr>success = False, r_files_downloaded = 0, r_total_files = 0,
                              r_errors = errors st, r_message = last (errors st)\<rparr>
                        else \<lparr>success = True, r_files_downloaded = 0, r_total_files = 0,
                              r_errors = [], r_message = ''No files found in content''\<rparr>)
                  else
                    (let total_files = length (files_info st);
                         fin = run_pool (number_retries env) (files_info st) (file_envs env)
                                 \<lparr>d_errors = errors st, d_files_downloaded = 0\<rparr>
                     in \<lparr>success = (d_files_downloaded fin > 0 \<or> d_errors fin = []),
                         r_files_downloaded = d_files_downloaded fin,
                         r_total_files = total_files,
                         r_errors = d_errors fin,
                         r_message = ''Downloaded '' @ str_nat (d_files_downloaded fin)
                                     @ ''/'' @ str_nat total_files @ '' files''\<rparr>))))"

text \<open>
  Sample environments: a URL whose content is an empty folder, the same URL when the
  API answers with an error status, and a worker whose five requests all get 404.
\<close>

definition empty_folder_env :: download_env where
  "empty_folder_env =
     \<lparr>source_url = ''https://gofile.io/d/AbC'', output_dir = ''out'', password_hash = None,
      number_retries = 5, account = [Account_ok ''tok''], tree = Folder ''stuff'' [],
      file_envs = []\<rparr>"

definition api_error_env :: download_env where
  "api_error_env = empty_folder_env\<lparr>tree := Api_error ''error-notFound''\<rparr>"

definition not_found :: response where
  "not_found = \<lparr>truthy = False, status_code = 404, content_length = Absent,
                content_range = Absent, chunks = [], stream_end = Stream_done\<rparr>"

definition not_found_env :: file_env where
  "not_found_env =
     \<lparr>exists_nonempty = False, stop_at_submit = False,
      attempts_env = replicate 7 \<lparr>stop_set = False, part_size = 0, gets = [Got not_found]\<rparr>\<rparr>"

section \<open>Verification\<close>

subsection \<open>Lemmas on the scan and the mark\<close>

lemma first_queued_Some:
  "first_queued q = Some i \<Longrightarrow>
     i < length q \<and> status (q ! i) = Queued \<and> (\<forall>k<i. status (q ! k) \<noteq> Queued)"
proof (induction q arbitrary: i)
  case Nil
  then show ?case by simp
next
  case (Cons j q)
  show ?case
  proof (cases "status j = Queued")
    case True
    with Cons.prems show ?thesis by simp
  next
    case False
    with Cons.prems obtain i' where i': "first_queued q = Some i'" "i = Suc i'"
      by auto
    from Cons.IH[OF i'(1)] have ih:
      "i' < length q" "status (q ! i') = Queued" "\<forall>k<i'. status (q ! k) \<noteq> Queued"
      by simp_all
    have "\<forall>k<Suc i'. status ((j # q) ! k) \<noteq> Queued"
    proof (intro allI impI)
      fix k assume "k < Suc i'"
      then show "status ((j # q) ! k) \<noteq> Queued"
        using False ih(3) by (cases k) simp_all
    qed
    with ih i'(2) show ?thesis by simp
  qed
qed

lemma find_next_job_first_queued:
  "find_next_job q = Some j \<Longrightarrow> \<exists>i. first_queued q = Some i \<and> q ! i = j"
  by (induction q) (auto split: if_splits)

lemma find_next_job_None: "find_next_job q = None \<Longrightarrow> first_queued q = None"
  by (induction q) (auto split: if_splits)

lemma mark_active_distinct:
  "distinct (map obj q) \<Longrightarrow> i < length q \<Longrightarrow>
     mark_active now (obj (q ! i)) q = q[i := admit now (q ! i)]"
proof (induction q arbitrary: i)
  case Nil
  then show ?case by simp
next
  case (Cons j q)
  show ?case
  proof (cases i)
    case 0
    have "map (\<lambda>x. if obj x = obj j then admit now x else x) q = q"
    proof (intro map_idI)
      fix x assume "x \<in> set q"
      then have "obj x \<in> set (map obj q)" by simp
      moreover from Cons.prems(1) have "obj j \<notin> set (map obj q)" by simp
      ultimately have "obj x \<noteq> obj j" by metis
      then show "(if obj x = obj j then admit now x else x) = x" by simp
    qed
    with 0 show ?thesis by (simp add: mark_active_def)
  next
    case (Suc i')
    with Cons.prems have "obj j \<noteq> obj (q ! i')" by auto
    moreover have "mark_active now (obj (q ! i')) q = q[i' := admit now (q ! i')]"
      using Cons.IH[of i'] Cons.prems Suc by simp
    ultimately show ?thesis using Suc by (simp add: mark_active_def)
  qed
qed

subsection \<open>Admission order\<close>

text \<open>
  C3. Whenever a pass of the drain loop admits a job (its result is a dispatch), the job
  is the earliest-inserted one whose status is queued: it sits at a position \<open>i\<close> of the
  queue with no queued job before it. The queue after the pass is the queue before it
  with exactly that job marked active, \<open>started_at\<close> stamped with the time of the pass
  and the message set, and this is the state in which the job is handed to the Runner.
\<close>

theorem drain_pass_admits_first_queued:
  assumes "distinct (map obj q)"
    and "drain_pass max_concurrent now q = (Dispatch r, q')"
  shows "\<exists>i. first_queued q = Some i \<and> i < length q \<and> obj (q ! i) = r
            \<and> status (q ! i) = Queued \<and> (\<forall>k<i. status (q ! k) \<noteq> Queued)
            \<and> q' = q[i := (q ! i)\<lparr>status := Active, started_at := Some now,
                                   message := ''Starting download...''\<rparr>]
            \<and> status (q' ! i) = Active \<and> started_at (q' ! i) = Some now"
proof -
  from assms(2) obtain j where j: "find_next_job q = Some j" "obj j = r"
      and q': "q' = mark_active now r q"
    by (auto simp: drain_pass_def drain_decide_def split: option.splits if_splits pass_result.splits)
  from find_next_job_first_queued[OF j(1)] obtain i where i: "first_queued q = Some i" "q ! i = j"
    by blast
  from first_queued_Some[OF i(1)] have fq:
    "i < length q" "status (q ! i) = Queued" "\<forall>k<i. status (q ! k) \<noteq> Queued"
    by simp_all
  have "q' = q[i := admit now (q ! i)]"
    using mark_active_distinct[OF assms(1) fq(1), of now] i(2) j(2) q' by simp
  then have upd: "q' = q[i := (q ! i)\<lparr>status := Active, started_at := Some now,
                                   message := ''Starting download...''\<rparr>]"
    by (simp add: admit_def)
  from upd fq(1) have "status (q' ! i) = Active" "started_at (q' ! i) = Some now"
    by simp_all
  with i fq upd j(2) show ?thesis by blast
qed

theorem drain_pass_admits_first_queued_witness:
  "\<exists>i. first_queued
          [(new_job 0 (Int_id 1) ''a'' ''tiktok'' None None)\<lparr>status := Completed\<rparr>,
           new_job 1 (Int_id 2) ''b'' ''tiktok'' None None,
           new_job 2 (Int_id 3) ''c'' ''tiktok'' None None] = Some i
      \<and> obj ([(new_job 0 (Int_id 1) ''a'' ''tiktok'' None None)\<lparr>status := Completed\<rparr>,
           new_job 1 (Int_id 2) ''b'' ''tiktok'' None None,
           new_job 2 (Int_id 3) ''c'' ''tiktok'' None None] ! i) = 1"
proof -
  define q where "q = [(new_job 0 (Int_id 1) ''a'' ''tiktok'' None None)\<lparr>status := Completed\<rparr>,
            new_job 1 (Int_id 2) ''b'' ''tiktok'' None None,
            new_job 2 (Int_id 3) ''c'' ''tiktok'' None None]"
  have d: "distinct (map obj q)" by (simp add: q_def new_job_def)
  have p: "drain_pass 2 7 q = (Dispatch 1, mark_active 7 1 q)"
    by (simp add: q_def new_job_def drain_pass_def drain_decide_def active_count_def
        queued_count_def)
  from drain_pass_admits_first_queued[OF d p]
  show ?thesis unfolding q_def by blast
qed


subsection \<open>The concurrency cap\<close>

lemma active_count_map_le:
  assumes "\<And>j. status (f j) = Active \<Longrightarrow> status j = Active"
  shows "active_count (map f q) \<le> active_count q"
proof (induction q)
  case Nil
  then show ?case by (simp add: active_count_def)
next
  case (Cons j q)
  then show ?case using assms[of j] by (auto simp: active_count_def)
qed

lemma apply_write_obj: "obj (apply_write w j) = obj j"
  by (cases w) simp_all

lemma apply_write_not_active: "status (apply_write w j) = Active \<Longrightarrow> status j = Active"
  by (cases w) simp_all

lemma write_job_obj: "map obj (write_job r w q) = map obj q"
  by (induction q) (simp_all add: write_job_def apply_write_obj)

lemma write_job_active: "active_count (write_job r w q) \<le> active_count q"
  unfolding write_job_def
  by (rule active_count_map_le) (auto dest: apply_write_not_active split: if_splits)

lemma mark_active_obj: "map obj (mark_active now r q) = map obj q"
  by (induction q) (simp_all add: mark_active_def admit_def)

lemma mark_active_absent:
  "r \<notin> set (map obj q) \<Longrightarrow> mark_active now r q = q"
  by (induction q) (auto simp: mark_active_def)

lemma mark_active_count:
  "distinct (map obj q) \<Longrightarrow> active_count (mark_active now r q) \<le> Suc (active_count q)"
proof (induction q)
  case Nil
  then show ?case by (simp add: mark_active_def active_count_def)
next
  case (Cons j q)
  show ?case
  proof (cases "obj j = r")
    case True
    with Cons.prems have "r \<notin> set (map obj q)" by auto
    then have "mark_active now r q = q" by (rule mark_active_absent)
    then have "mark_active now r (j # q) = admit now j # q"
      using True by (simp add: mark_active_def)
    then show ?thesis by (simp add: active_count_def)
  next
    case False
    then have "mark_active now r (j # q) = j # mark_active now r q"
      by (simp add: mark_active_def)
    moreover from Cons have "active_count (mark_active now r q) \<le> Suc (active_count q)"
      by simp
    ultimately show ?thesis by (simp add: active_count_def)
  qed
qed

lemma pause_obj: "api_queue_pause i q = Some q' \<Longrightarrow> map obj q' = map obj q"
  by (induction q arbitrary: q') (auto split: if_splits)

lemma pause_active: "api_queue_pause i q = Some q' \<Longrightarrow> active_count q' \<le> active_count q"
  by (induction q arbitrary: q') (auto simp: active_count_def split: if_splits)

lemma resume_obj: "api_queue_resume i q = Some q' \<Longrightarrow> map obj q' = map obj q"
  by (induction q arbitrary: q') (auto split: if_splits)

lemma resume_active: "api_queue_resume i q = Some q' \<Longrightarrow> active_count q' \<le> active_count q"
  by (induction q arbitrary: q') (auto simp: active_count_def split: if_splits)

lemma delete_sub: "api_queue_delete i q = Some q' \<Longrightarrow> set q' \<subseteq> set q"
  by (induction q arbitrary: q') (auto split: if_splits)

lemma delete_distinct:
  "api_queue_delete i q = Some q' \<Longrightarrow> distinct (map obj q) \<Longrightarrow> distinct (map obj q')"
proof (induction q arbitrary: q')
  case Nil
  then show ?case by simp
next
  case (Cons j q)
  show ?case
  proof (cases "job_id j = i")
    case True
    with Cons.prems show ?thesis by simp
  next
    case False
    with Cons.prems(1) obtain q0 where q0: "api_queue_delete i q = Some q0" "q' = j # q0"
      by auto
    from Cons.IH[OF q0(1)] Cons.prems(2) have "distinct (map obj q0)" by simp
    moreover from delete_sub[OF q0(1)] Cons.prems(2) have "obj j \<notin> set (map obj q0)"
      by auto
    ultimately show ?thesis using q0(2) by simp
  qed
qed

lemma delete_active: "api_queue_delete i q = Some q' \<Longrightarrow> active_count q' \<le> active_count q"
  by (induction q arbitrary: q') (auto simp: active_count_def split: if_splits)

lemma clear_active: "active_count (api_queue_clear q) \<le> active_count q"
  by (induction q) (auto simp: active_count_def api_queue_clear_def)

lemma clear_distinct: "distinct (map obj q) \<Longrightarrow> distinct (map obj (api_queue_clear q))"
  by (simp add: api_queue_clear_def distinct_map_filter)

lemma list_all_obj_cong:
  "map obj q' = map obj q \<Longrightarrow> list_all (\<lambda>j. obj j < n) q \<Longrightarrow> list_all (\<lambda>j. obj j < n) q'"
proof -
  assume a: "map obj q' = map obj q" and b: "list_all (\<lambda>j. obj j < n) q"
  from b have "\<forall>x\<in>set (map obj q). x < n" by (auto simp: list_all_iff)
  with a have "\<forall>x\<in>set (map obj q'). x < n" by simp
  then show ?thesis by (auto simp: list_all_iff)
qed

lemma list_all_subset:
  "set q' \<subseteq> set q \<Longrightarrow> list_all P q \<Longrightarrow> list_all P q'"
  by (auto simp: list_all_iff)

lemma drain_decide_Dispatch:
  "drain_decide mc n nj q = Dispatch r \<Longrightarrow> int n < mc"
  by (auto simp: drain_decide_def split: option.splits if_splits)

lemma cap_inv_init: "0 \<le> mc \<Longrightarrow> cap_inv mc init_sys"
  by (simp add: cap_inv_def init_sys_def active_count_def)

lemma cap_inv_locked:
  assumes inv: "cap_inv mc s" and st: "locked s f = Some s'"
    and d: "distinct (map obj (download_queue s)) \<Longrightarrow> distinct (map obj (f (download_queue s)))"
    and sub: "set (f (download_queue s)) \<subseteq> set (download_queue s)
              \<or> map obj (f (download_queue s)) = map obj (download_queue s)"
    and ac: "active_count (f (download_queue s)) \<le> active_count (download_queue s)"
  shows "cap_inv mc s'"
proof -
  from st have fr: "lock s = Lock_free" and s': "s' = s\<lparr>download_queue := f (download_queue s)\<rparr>"
    by (auto simp: locked_def split: if_splits)
  from inv have i: "distinct (map obj (download_queue s))"
    "list_all (\<lambda>j. obj j < next_obj s) (download_queue s)"
    "int (active_count (download_queue s)) \<le> mc"
    by (simp_all add: cap_inv_def)
  have "list_all (\<lambda>j. obj j < next_obj s) (f (download_queue s))"
    using sub i(2) list_all_subset list_all_obj_cong by blast
  with d[OF i(1)] ac i(3) fr s' show ?thesis
    by (simp add: cap_inv_def)
qed

lemma cap_inv_step:
  assumes "cap_inv mc s" and "step mc a s = Some s'"
  shows "cap_inv mc s'"
proof (cases a)
  case Get_next_queue_id
  with assms show ?thesis by (auto simp: cap_inv_def split: if_splits)
next
  case (Append_job i u p l f)
  with assms(2) have fr: "lock s = Lock_free"
    and s': "s' = s\<lparr>download_queue := download_queue s @ [new_job (next_obj s) i u p l f],
                   next_obj := Suc (next_obj s)\<rparr>"
    by (auto split: if_splits)
  from assms(1) have i: "distinct (map obj (download_queue s))"
    "list_all (\<lambda>j. obj j < next_obj s) (download_queue s)"
    "int (active_count (download_queue s)) \<le> mc"
    by (simp_all add: cap_inv_def)
  from i(2) have "next_obj s \<notin> set (map obj (download_queue s))"
    by (auto simp: list_all_iff)
  moreover from i(2) have "list_all (\<lambda>j. obj j < Suc (next_obj s)) (download_queue s)"
    by (auto simp: list_all_iff)
  ultimately show ?thesis using i fr s'
    by (simp add: cap_inv_def new_job_def active_count_def)
next
  case Drain_count
  with assms show ?thesis by (auto simp: cap_inv_def split: if_splits)
next
  case Drain_select
  with assms(2) obtain n where n: "lock s = Drain_counted n"
    by (auto split: lock_state.splits)
  from assms(1) n have le: "active_count (download_queue s) \<le> n"
    by (simp add: cap_inv_def)
  show ?thesis
  proof (cases "drain_decide mc n (find_next_job (download_queue s)) (download_queue s)")
    case Return
    with assms Drain_select n show ?thesis by (auto simp: cap_inv_def)
  next
    case Sleep_continue
    with assms Drain_select n show ?thesis by (auto simp: cap_inv_def)
  next
    case (Dispatch r)
    from drain_decide_Dispatch[OF Dispatch] le
    have "int (active_count (download_queue s)) < mc" by simp
    with assms Drain_select n Dispatch show ?thesis by (auto simp: cap_inv_def)
  qed
next
  case (Drain_mark now)
  with assms(2) obtain r where r: "lock s = Drain_selected r"
    and s': "s' = s\<lparr>download_queue := mark_active now r (download_queue s), lock := Lock_free\<rparr>"
    by (auto split: lock_state.splits)
  from assms(1) r have i: "distinct (map obj (download_queue s))"
    "list_all (\<lambda>j. obj j < next_obj s) (download_queue s)"
    "int (active_count (download_queue s)) < mc"
    by (simp_all add: cap_inv_def)
  from mark_active_count[OF i(1), of now r] i(3)
  have "int (active_count (mark_active now r (download_queue s))) \<le> mc" by simp
  moreover have "list_all (\<lambda>j. obj j < next_obj s) (mark_active now r (download_queue s))"
    using list_all_obj_cong[OF mark_active_obj i(2)] .
  ultimately show ?thesis using i(1) s' by (simp add: cap_inv_def mark_active_obj)
next
  case (Api_pause i)
  with assms(2) have st: "locked s (or_unchanged (api_queue_pause i)) = Some s'" by simp
  show ?thesis
    by (rule cap_inv_locked[OF assms(1) st])
      (auto simp: or_unchanged_def pause_obj pause_active split: option.splits)
next
  case (Api_resume i)
  with assms(2) have st: "locked s (or_unchanged (api_queue_resume i)) = Some s'" by simp
  show ?thesis
    by (rule cap_inv_locked[OF assms(1) st])
      (auto simp: or_unchanged_def resume_obj resume_active split: option.splits)
next
  case (Api_delete i)
  with assms(2) have st: "locked s (or_unchanged (api_queue_delete i)) = Some s'" by simp
  show ?thesis
  proof (rule cap_inv_locked[OF assms(1) st])
    show "distinct (map obj (download_queue s)) \<Longrightarrow>
      distinct (map obj (or_unchanged (api_queue_delete i) (download_queue s)))"
      by (auto simp: or_unchanged_def delete_distinct split: option.splits)
    show "set (or_unchanged (api_queue_delete i) (download_queue s)) \<subseteq> set (download_queue s)
       \<or> map obj (or_unchanged (api_queue_delete i) (download_queue s)) = map obj (download_queue s)"
      using delete_sub by (auto simp: or_unchanged_def split: option.splits)
    show "active_count (or_unchanged (api_queue_delete i) (download_queue s))
       \<le> active_count (download_queue s)"
      by (auto simp: or_unchanged_def delete_active split: option.splits)
  qed
next
  case Api_clear
  with assms(2) have st: "locked s api_queue_clear = Some s'" by simp
  show ?thesis
  proof (rule cap_inv_locked[OF assms(1) st])
    show "distinct (map obj (download_queue s)) \<Longrightarrow>
      distinct (map obj (api_queue_clear (download_queue s)))"
      by (rule clear_distinct)
    show "set (api_queue_clear (download_queue s)) \<subseteq> set (download_queue s)
       \<or> map obj (api_queue_clear (download_queue s)) = map obj (download_queue s)"
      by (simp add: api_queue_clear_def)
    show "active_count (api_queue_clear (download_queue s)) \<le> active_count (download_queue s)"
      by (rule clear_active)
  qed
next
  case Factory_reset
  with assms(2) have st: "locked s (\<lambda>q. []) = Some s'" by simp
  show ?thesis
    by (rule cap_inv_locked[OF assms(1) st]) (auto simp: active_count_def)
next
  case (Runner_write r w)
  with assms(2) have s': "s' = s\<lparr>download_queue := write_job r w (download_queue s)\<rparr>"
    by simp
  from assms(1) have i: "distinct (map obj (download_queue s))"
    "list_all (\<lambda>j. obj j < next_obj s) (download_queue s)"
    "int (active_count (download_queue s)) \<le> mc"
    by (simp_all add: cap_inv_def)
  have l: "list_all (\<lambda>j. obj j < next_obj s) (write_job r w (download_queue s))"
    using list_all_obj_cong[OF write_job_obj i(2)] .
  have a: "active_count (write_job r w (download_queue s)) \<le> active_count (download_queue s)"
    by (rule write_job_active)
  from assms(1) have "case lock s of Lock_free \<Rightarrow> True
          | Drain_counted n \<Rightarrow> active_count (download_queue s) \<le> n
          | Drain_selected r' \<Rightarrow> int (active_count (download_queue s)) < mc"
    by (simp add: cap_inv_def)
  with a have "case lock s of Lock_free \<Rightarrow> True
          | Drain_counted n \<Rightarrow> active_count (write_job r w (download_queue s)) \<le> n
          | Drain_selected r' \<Rightarrow> int (active_count (write_job r w (download_queue s))) < mc"
    by (cases "lock s") auto
  with i l a s' show ?thesis
    by (cases "lock s") (simp_all add: cap_inv_def write_job_obj)
qed

lemma cap_inv_exec:
  "cap_inv mc s \<Longrightarrow> exec mc as s = Some s' \<Longrightarrow> cap_inv mc s'"
proof (induction as arbitrary: s)
  case Nil
  then show ?case by simp
next
  case (Cons a as)
  from Cons.prems(2) obtain s1 where s1: "step mc a s = Some s1" "exec mc as s1 = Some s'"
    by (auto split: option.splits)
  from cap_inv_step[OF Cons.prems(1) s1(1)] Cons.IH s1(2) show ?case by blast
qed

text \<open>
  C1. For every cap \<open>mc \<ge> 1\<close> read by the drain loops, in every state the queue reaches
  from the empty queue by any interleaving of enqueues, handler calls, Runner writes and
  the statements of drain passes (the count, the scan and the mark of one pass are made
  under the lock, which no other pass or handler can take meanwhile), the number of
  active jobs is at most \<open>mc\<close>.
\<close>

theorem active_never_exceeds_cap:
  assumes "1 \<le> mc" and "exec mc as init_sys = Some s"
  shows "int (active_count (download_queue s)) \<le> mc"
proof -
  from assms(1) have "cap_inv mc init_sys" by (simp add: cap_inv_init)
  from cap_inv_exec[OF this assms(2)] show ?thesis by (simp add: cap_inv_def)
qed

theorem active_never_exceeds_cap_witness:
  "\<exists>s. exec 1 race_trace init_sys = Some s
       \<and> map status (download_queue s) = [Active, Queued]
       \<and> int (active_count (download_queue s)) \<le> 1"
proof -
  have e: "\<exists>s. exec 1 race_trace init_sys = Some s
       \<and> map status (download_queue s) = [Active, Queued]"
    by (simp add: race_trace_def init_sys_def new_job_def active_count_def queued_count_def
        drain_decide_def mark_active_def admit_def write_job_def)
  then obtain s where s: "exec 1 race_trace init_sys = Some s"
    "map status (download_queue s) = [Active, Queued]" by (elim exE conjE)
  have "(1::int) \<le> 1" by simp
  from active_never_exceeds_cap[OF this s(1)]
  have "int (active_count (download_queue s)) \<le> 1" .
  with s show ?thesis by (intro exI[of _ s] conjI)
qed

subsection \<open>The cap is read once\<close>

lemma drain_loop_ignores_setting:
  "drain_loop mc (map (\<lambda>e. e\<lparr>setting_now := f e\<rparr>) es) q = drain_loop mc es q"
  by (induction es arbitrary: q) (auto split: prod.splits pass_result.splits)

text \<open>
  C5, as the claim states it, fails: a drain loop started with the setting at 2 admits a
  second job on its second pass although the setting was lowered to 1 before that pass
  and one job is active. The loop that reads the setting on each pass admits one job.
\<close>

theorem process_queue_reread_counterexample:
  "snd (process_queue 2 [\<lparr>setting_now = 2, clock = 0\<rparr>, \<lparr>setting_now = 1, clock = 1\<rparr>]
          [new_job 0 (Int_id 1) ''a'' ''tiktok'' None None,
           new_job 1 (Int_id 2) ''b'' ''tiktok'' None None]) = [0, 1]
   \<and> map status (fst (process_queue 2
          [\<lparr>setting_now = 2, clock = 0\<rparr>, \<lparr>setting_now = 1, clock = 1\<rparr>]
          [new_job 0 (Int_id 1) ''a'' ''tiktok'' None None,
           new_job 1 (Int_id 2) ''b'' ''tiktok'' None None])) = [Active, Active]
   \<and> snd (drain_loop_reread [\<lparr>setting_now = 2, clock = 0\<rparr>, \<lparr>setting_now = 1, clock = 1\<rparr>]
          [new_job 0 (Int_id 1) ''a'' ''tiktok'' None None,
           new_job 1 (Int_id 2) ''b'' ''tiktok'' None None]) = [0]"
  by (simp add: process_queue_def drain_pass_def drain_decide_def active_count_def
      queued_count_def mark_active_def admit_def new_job_def)

text \<open>
  C5, amended. The setting is read once, when a drain loop starts: every pass of that
  loop decides against the value read then, whatever values the setting takes while the
  loop runs, so the queue it leaves and the jobs it dispatches do not depend on them.
\<close>

theorem process_queue_reads_setting_once:
  "process_queue setting_at_start (map (\<lambda>e. e\<lparr>setting_now := f e\<rparr>) es) q
     = process_queue setting_at_start es q"
  unfolding process_queue_def by (rule drain_loop_ignores_setting)

section \<open>Properties of the Runner\<close>

subsection \<open>What the loop leaves alone\<close>

lemma apply_ext_fixed:
  "platform (apply_ext w j) = platform j \<and> username (apply_ext w j) = username j
   \<and> files_downloaded (apply_ext w j) = files_downloaded j"
  by (cases w) (simp_all add: admit_def)

lemma apply_exts_fixed:
  "platform (apply_exts ws j) = platform j \<and> username (apply_exts ws j) = username j
   \<and> files_downloaded (apply_exts ws j) = files_downloaded j"
  unfolding apply_exts_def
  by (induction ws arbitrary: j) (simp_all add: apply_ext_fixed)

lemma parse_line_fixed:
  "parse_line l j fc = (j', fc') \<Longrightarrow>
     platform j' = platform j \<and> username j' = username j \<and> status j' = status j"
  by (auto simp: parse_line_def split: if_splits)

lemma parse_line_count:
  "parse_line l j fc = (j', fc') \<Longrightarrow> files_downloaded j \<le> fc \<Longrightarrow>
     files_downloaded j \<le> files_downloaded j' \<and> files_downloaded j' \<le> fc'"
  by (auto simp: parse_line_def split: if_splits)

lemma loop_body_fixed:
  assumes "loop_body e j fc = (c, j', fc')"
  shows "platform j' = platform j \<and> username j' = username j"
proof (cases "status (apply_exts (ext e) j) = Paused")
  case True
  with assms show ?thesis by (auto simp: loop_body_def Let_def apply_exts_fixed)
next
  case False
  obtain j2 fc2 where p: "parse_line (strip (line e)) (apply_exts (ext e) j) fc = (j2, fc2)"
    by (cases "parse_line (strip (line e)) (apply_exts (ext e) j) fc")
  from parse_line_fixed[OF p] have "platform j2 = platform j" "username j2 = username j"
    by (simp_all add: apply_exts_fixed)
  with assms False p show ?thesis
    by (auto simp: loop_body_def Let_def split: if_splits)
qed

lemma loop_body_count:
  assumes "loop_body e j fc = (c, j', fc')" and "files_downloaded j \<le> fc"
  shows "files_downloaded j \<le> files_downloaded j' \<and> files_downloaded j' \<le> fc'"
proof (cases "status (apply_exts (ext e) j) = Paused")
  case True
  with assms show ?thesis by (auto simp: loop_body_def Let_def apply_exts_fixed)
next
  case False
  obtain j2 fc2 where p: "parse_line (strip (line e)) (apply_exts (ext e) j) fc = (j2, fc2)"
    by (cases "parse_line (strip (line e)) (apply_exts (ext e) j) fc")
  from assms(2) have "files_downloaded (apply_exts (ext e) j) \<le> fc"
    by (simp add: apply_exts_fixed)
  from parse_line_count[OF p this]
  have "files_downloaded j \<le> files_downloaded j2" "files_downloaded j2 \<le> fc2"
    by (simp_all add: apply_exts_fixed)
  with assms(1) False p show ?thesis
    by (auto simp: loop_body_def Let_def split: if_splits)
qed

lemma loop_body_paused:
  "loop_body e j fc = (Exit_paused, j', fc') \<Longrightarrow>
     status j' = Paused \<and> message j' = ''Download paused''"
  by (auto simp: loop_body_def Let_def split: if_splits prod.splits)

text \<open>
  The timeout check compares two clock readings of one and the same iteration, both
  taken after the line has arrived; the time that passed while \<open>readline\<close> was waiting
  for the line does not enter.
\<close>

lemma loop_body_timeout_iff:
  "fst (loop_body e j fc) = Exit_timeout \<longleftrightarrow>
     status (apply_exts (ext e) j) \<noteq> Paused \<and> t_check e - t_read e > 600"
  by (auto simp: loop_body_def Let_def timeout_minutes_def split: if_splits prod.splits)

lemma read_loop_paused:
  "read_loop es j fc = (Exit_paused, j', fc') \<Longrightarrow>
     status j' = Paused \<and> message j' = ''Download paused''
     \<and> platform j' = platform j \<and> username j' = username j"
proof (induction es arbitrary: j fc)
  case Nil
  then show ?case by simp
next
  case (Cons e es)
  obtain c j1 fc1 where b: "loop_body e j fc = (c, j1, fc1)"
    by (cases "loop_body e j fc")
  from loop_body_fixed[OF b] have f: "platform j1 = platform j" "username j1 = username j"
    by simp_all
  show ?case
  proof (cases c)
    case Continue
    with Cons.prems b have "read_loop es j1 fc1 = (Exit_paused, j', fc')" by simp
    from Cons.IH[OF this] f show ?thesis by simp
  next
    case Exit_paused
    with Cons.prems b have "j' = j1" by simp
    with loop_body_paused b Exit_paused f show ?thesis by blast
  next
    case Exit_timeout
    with Cons.prems b show ?thesis by simp
  qed
qed

lemma loop_trace_sorted:
  "files_downloaded j \<le> fc \<Longrightarrow> sorted (map files_downloaded (j # loop_trace es j fc))"
proof (induction es arbitrary: j fc)
  case Nil
  then show ?case by simp
next
  case (Cons e es)
  obtain c j1 fc1 where b: "loop_body e j fc = (c, j1, fc1)"
    by (cases "loop_body e j fc")
  from loop_body_count[OF b Cons.prems]
  have m: "files_downloaded j \<le> files_downloaded j1" "files_downloaded j1 \<le> fc1"
    by simp_all
  show ?case
  proof (cases c)
    case Continue
    from Cons.IH[OF m(2)] have "sorted (map files_downloaded (j1 # loop_trace es j1 fc1))" .
    with m(1) Continue b show ?thesis by auto
  next
    case Exit_paused
    with m(1) b show ?thesis by simp
  next
    case Exit_timeout
    with m(1) b show ?thesis by simp
  qed
qed

lemma resume_files_downloaded:
  "api_queue_resume i q = Some q' \<Longrightarrow> map files_downloaded q' = map files_downloaded q"
  by (induction q arbitrary: q') (auto split: if_splits)

lemma finally_block_one: "\<exists>j' n. finally_block now fc j = (j', n)"
  by (simp add: finally_block_def Let_def)

lemma run_download_one_notification:
  "\<not> mkdir_fails env \<Longrightarrow> length (notifications (run_download env j)) = 1"
  by (simp add: run_download_def split: option.splits prod.splits loop_ctl.splits)

subsection \<open>The stall window\<close>

text \<open>
  C2. The Runner does not do what the claim says: on a run whose second output line
  arrives 3600 seconds after the first (six stall windows of silence), after which the
  process exits with code 0, it never terminates the subprocess and the job ends
  \<open>completed\<close>, not \<open>failed\<close> with a timeout message.
\<close>

theorem run_download_stall_undetected:
  "status (final_job (run_download stalled_env job0)) = Completed
   \<and> \<not> terminate_called (run_download stalled_env job0)
   \<and> message (final_job (run_download stalled_env job0)) = ''Completed! Downloaded 0 files''"
  by code_simp

subsection \<open>The pause exit\<close>

text \<open>
  C4, as the claim states it, fails: on a run in which the job is paused before the
  second line is read, the Runner returns with the status still \<open>paused\<close>, and yet it
  has sent a notification, the failure one with the text of the pause.
\<close>

theorem run_download_pause_counterexample:
  "status (final_job (run_download paused_env job0)) = Paused
   \<and> notifications (run_download paused_env job0)
       = [Notify_failed Notes ''bob'' ''Download paused'']"
  by code_simp

text \<open>
  C4, amended. Once the output directory exists, every execution of the Runner sends
  exactly one notification, on every exit path. When the loop leaves through the pause
  check (the Runner read a line and found the status \<open>paused\<close>), the Runner has
  terminated the subprocess and returns with the status still \<open>paused\<close>, neither
  \<open>completed\<close> nor \<open>failed\<close>; the \<open>finally\<close> block has run all the same: the handle is
  cleared, \<open>completed_at\<close> is stamped, and the one notification is the failure one with
  the message \<open>Download paused\<close>.
\<close>

theorem run_download_pause_exit:
  assumes "\<not> mkdir_fails env"
  shows "length (notifications (run_download env j)) = 1
    \<and> (popen_error env = None
       \<and> fst (read_loop (reads env)
              (j\<lparr>message := ''Initializing gallery-dl...'', process := Some (pid env)\<rparr>) 0)
           = Exit_paused
       \<longrightarrow> status (final_job (run_download env j)) = Paused
          \<and> message (final_job (run_download env j)) = ''Download paused''
          \<and> terminate_called (run_download env j)
          \<and> process (final_job (run_download env j)) = None
          \<and> completed_at (final_job (run_download env j)) = Some (t_final env)
          \<and> notifications (run_download env j)
              = [Notify_failed (emoji_of (platform j))
                   (display_username (platform j) (username j)) ''Download paused''])"
proof (intro conjI impI)
  show "length (notifications (run_download env j)) = 1"
    using assms by (rule run_download_one_notification)
next
  assume h: "popen_error env = None
       \<and> fst (read_loop (reads env)
              (j\<lparr>message := ''Initializing gallery-dl...'', process := Some (pid env)\<rparr>) 0)
           = Exit_paused"
  define j0 where "j0 = j\<lparr>message := ''Initializing gallery-dl...'', process := Some (pid env)\<rparr>"
  from h obtain j1 fc where rl: "read_loop (reads env) j0 0 = (Exit_paused, j1, fc)"
    unfolding j0_def by (cases "read_loop (reads env)
              (j\<lparr>message := ''Initializing gallery-dl...'', process := Some (pid env)\<rparr>) 0") auto
  from read_loop_paused[OF rl] have p: "status j1 = Paused" "message j1 = ''Download paused''"
    "platform j1 = platform j" "username j1 = username j"
    by (simp_all add: j0_def)
  have r: "run_download env j =
      (case finally_block (t_final env) fc j1 of
         (j', n) \<Rightarrow> \<lparr>final_job = j', terminate_called = True,
                       notifications = [n], last_sync_updated = False\<rparr>)"
    using assms h rl by (simp add: run_download_def j0_def)
  show "status (final_job (run_download env j)) = Paused"
    "message (final_job (run_download env j)) = ''Download paused''"
    "terminate_called (run_download env j)"
    "process (final_job (run_download env j)) = None"
    "completed_at (final_job (run_download env j)) = Some (t_final env)"
    "notifications (run_download env j)
              = [Notify_failed (emoji_of (platform j))
                   (display_username (platform j) (username j)) ''Download paused'']"
    using p by (simp_all add: r finally_block_def Let_def)
qed

theorem run_download_pause_exit_witness:
  "\<not> mkdir_fails paused_env \<and> popen_error paused_env = None
   \<and> fst (read_loop (reads paused_env)
          (job0\<lparr>message := ''Initializing gallery-dl...'', process := Some (pid paused_env)\<rparr>) 0)
       = Exit_paused
   \<and> length (notifications (run_download paused_env job0)) = 1
   \<and> status (final_job (run_download paused_env job0)) = Paused
   \<and> terminate_called (run_download paused_env job0)"
proof -
  have a: "\<not> mkdir_fails paused_env" by (simp add: paused_env_def)
  have b: "popen_error paused_env = None" by (simp add: paused_env_def)
  have c: "fst (read_loop (reads paused_env)
          (job0\<lparr>message := ''Initializing gallery-dl...'', process := Some (pid paused_env)\<rparr>) 0)
       = Exit_paused"
    by code_simp
  from run_download_pause_exit[OF a, of job0] a b c show ?thesis by simp
qed

subsection \<open>The files counter\<close>

text \<open>
  C9, as the claim states it, fails twice. Resuming a paused job that had counted three
  files leaves the counter at 3, not 0; and in the next run of that job the first
  file-looking line stores 1 into the counter, so within that run it goes from 3 down
  to 1.
\<close>

theorem files_downloaded_counterexample:
  "api_queue_resume (Int_id 1) [resumed_job]
     = Some [resumed_job\<lparr>status := Queued, message := ''Resuming...''\<rparr>]
   \<and> files_downloaded (resumed_job\<lparr>status := Queued, message := ''Resuming...''\<rparr>) = 3
   \<and> map files_downloaded
       (loop_trace [\<lparr>ext = [], line = ''a/b/1.jpg'', t_read = 9, t_check = 9\<rparr>]
          (admit 9 (resumed_job\<lparr>status := Queued, message := ''Resuming...''\<rparr>)) 0) = [1]"
  by code_simp

text \<open>
  C9, amended. The counter is 0 in a newly created job. Within one execution of the
  Runner on a job that enters it with the counter at 0, the counter never decreases: the
  values it holds after the successive iterations of the loop are in ascending order.
  Resuming a paused job leaves the counter of every job as it was (it is not reset).
\<close>

theorem files_downloaded_monotone:
  "files_downloaded (new_job r i u p l f) = 0
   \<and> (files_downloaded j = 0 \<longrightarrow> sorted (map files_downloaded (j # loop_trace es j 0)))
   \<and> (api_queue_resume i q = Some q' \<longrightarrow> map files_downloaded q' = map files_downloaded q)"
proof (intro conjI impI)
  show "files_downloaded (new_job r i u p l f) = 0" by (simp add: new_job_def)
next
  assume "files_downloaded j = 0"
  then have "files_downloaded j \<le> 0" by simp
  then show "sorted (map files_downloaded (j # loop_trace es j 0))"
    by (rule loop_trace_sorted)
next
  assume "api_queue_resume i q = Some q'"
  then show "map files_downloaded q' = map files_downloaded q"
    by (rule resume_files_downloaded)
qed

theorem files_downloaded_monotone_witness:
  "files_downloaded job0 = 0
   \<and> sorted (map files_downloaded (job0 # loop_trace (reads paused_env) job0 0))
   \<and> map files_downloaded (job0 # loop_trace (reads paused_env) job0 0) = [0, 1, 1]
   \<and> api_queue_resume (Int_id 1) [resumed_job]
       = Some [resumed_job\<lparr>status := Queued, message := ''Resuming...''\<rparr>]
   \<and> map files_downloaded [resumed_job\<lparr>status := Queued, message := ''Resuming...''\<rparr>]
       = map files_downloaded [resumed_job]"
proof -
  have a: "files_downloaded job0 = 0" by code_simp
  have b: "api_queue_resume (Int_id 1) [resumed_job]
       = Some [resumed_job\<lparr>status := Queued, message := ''Resuming...''\<rparr>]" by code_simp
  have c: "map files_downloaded (job0 # loop_trace (reads paused_env) job0 0) = [0, 1, 1]"
    by code_simp
  from files_downloaded_monotone[of 0 "Int_id 1" "''bob''" "''tiktok''" None None job0
      "reads paused_env" "[resumed_job]"
      "[resumed_job\<lparr>status := Queued, message := ''Resuming...''\<rparr>]"] a b c
  show ?thesis by simp
qed

section \<open>Properties of the GoFile downloader\<close>

subsection \<open>Decimal numerals and paths\<close>

lemma digit_char_code: "d < 10 \<Longrightarrow> (of_char (digit_char d) :: nat) = 48 + d"
proof -
  assume "d < 10"
  then have "d \<in> {0, 1, 2, 3, 4, 5, 6, 7, 8, 9}" by auto
  then show ?thesis by (auto simp: digit_char_def)
qed

lemma digit_char_inj:
  assumes "d < 10" "e < 10" "digit_char d = digit_char e"
  shows "d = e"
proof -
  from assms(3) have "(of_char (digit_char d) :: nat) = of_char (digit_char e)" by simp
  with assms(1,2) show ?thesis by (simp add: digit_char_code)
qed

lemma digit_char_not_paren: "d < 10 \<Longrightarrow> digit_char d \<noteq> CHR '')''"
proof
  assume "d < 10" and "digit_char d = CHR '')''"
  then have "(of_char (CHR '')'') :: nat) = 48 + d" using digit_char_code[of d] by simp
  then show False by simp
qed

lemma str_nat_nonempty: "str_nat n \<noteq> []"
  by (subst str_nat.simps) simp

lemma str_nat_inj: "str_nat n = str_nat m \<Longrightarrow> n = m"
proof (induction n arbitrary: m rule: str_nat.induct)
  case (1 n)
  show ?case
  proof (cases "n < 10")
    case True
    then have n: "str_nat n = [digit_char n]" by (subst str_nat.simps) simp
    show ?thesis
    proof (cases "m < 10")
      case mt: True
      then have "str_nat m = [digit_char m]" by (subst str_nat.simps) simp
      with n "1.prems" have "digit_char n = digit_char m" by simp
      with True mt show ?thesis by (rule digit_char_inj)
    next
      case False
      then have "str_nat m = str_nat (m div 10) @ [digit_char (m mod 10)]"
        by (subst str_nat.simps) simp
      with n "1.prems" have "str_nat (m div 10) = []" by simp
      with str_nat_nonempty show ?thesis by blast
    qed
  next
    case False
    then have n: "str_nat n = str_nat (n div 10) @ [digit_char (n mod 10)]"
      by (subst str_nat.simps) simp
    show ?thesis
    proof (cases "m < 10")
      case True
      then have "str_nat m = [digit_char m]" by (subst str_nat.simps) simp
      with n "1.prems" have "str_nat (n div 10) = []" by simp
      with str_nat_nonempty show ?thesis by blast
    next
      case mf: False
      then have "str_nat m = str_nat (m div 10) @ [digit_char (m mod 10)]"
        by (subst str_nat.simps) simp
      with n "1.prems" have a: "str_nat (n div 10) = str_nat (m div 10)"
        and b: "digit_char (n mod 10) = digit_char (m mod 10)" by simp_all
      from "1.IH"[OF False a] have "n div 10 = m div 10" .
      moreover from b have "n mod 10 = m mod 10" by (intro digit_char_inj) simp_all
      ultimately show ?thesis by (metis div_mult_mod_eq)
    qed
  qed
qed

lemma rfind_Some: "rfind c s = Some i \<Longrightarrow> i < length s \<and> s ! i = c"
  by (induction s arbitrary: i) (auto split: option.splits if_splits)

lemma splitext_parts:
  assumes "splitext p = (r, e)"
  shows "r @ e = p \<and> (e = [] \<or> hd e = CHR ''.'')"
proof (cases "e = []")
  case True
  with assms show ?thesis by (auto simp: splitext_def Let_def split: if_splits)
next
  case False
  with assms have d: "rfind_int CHR ''.'' p > rfind_int CHR ''/'' p"
    and r: "r = take (nat (rfind_int CHR ''.'' p)) p"
    and e: "e = drop (nat (rfind_int CHR ''.'' p)) p"
    by (auto simp: splitext_def Let_def split: if_splits)
  have "rfind_int CHR ''/'' p \<ge> - 1" by (simp add: rfind_int_def split: option.splits)
  with d obtain i where i: "rfind CHR ''.'' p = Some i"
    by (cases "rfind CHR ''.'' p") (auto simp: rfind_int_def)
  from rfind_Some[OF i] have "i < length p" "p ! i = CHR ''.''" by simp_all
  moreover from i have "nat (rfind_int CHR ''.'' p) = i" by (simp add: rfind_int_def)
  ultimately show ?thesis using r e by (simp add: hd_drop_conv_nth)
qed

lemma suffixed_int:
  "0 < n \<Longrightarrow> suffixed fp n b =
     (if b then fp @ ''('' @ str_int (int n) @ '')''
      else fst (splitext fp) @ ''('' @ str_int (int n) @ '')'' @ snd (splitext fp))"
  by (simp add: suffixed_def str_int_def)

lemma resolve_tab:
  "resolve_naming_collision (tab pre) d c b =
     (tab (pre @ [(d, c, b)]),
      suffixed (path_join d c) (length (filter (\<lambda>l. candidate l = path_join d c) pre)) b)"
proof -
  define fp where "fp = path_join d c"
  define k where "k = length (filter (\<lambda>l. candidate l = fp) pre)"
  have n: "(case tab pre fp of Some c \<Rightarrow> c + 1 | None \<Rightarrow> 0) = int k"
    by (simp add: tab_def k_def Let_def)
  have t: "(tab pre)(fp \<mapsto> int k) = tab (pre @ [(d, c, b)])"
    by (rule ext) (auto simp: tab_def k_def Let_def candidate_def fp_def)
  show ?thesis
  proof (cases "k = 0")
    case True
    with n t show ?thesis
      unfolding resolve_naming_collision_def fp_def[symmetric] k_def[symmetric]
      by (simp add: Let_def suffixed_def)
  next
    case False
    then have "0 < k" by simp
    from suffixed_int[OF this, of fp b] n t False show ?thesis
      unfolding resolve_naming_collision_def fp_def[symmetric] k_def[symmetric]
      by (simp add: Let_def split: prod.splits)
  qed
qed

lemma tab_Nil: "tab [] = Map.empty"
  by (rule ext) (simp add: tab_def)

lemma resolve_all_length: "length (resolve_all pc ls) = length ls"
  by (induction ls arbitrary: pc) (auto split: prod.splits)

lemma resolve_all_tab:
  "k < length ls \<Longrightarrow>
     resolve_all (tab pre) ls ! k =
       suffixed (candidate (ls ! k))
         (length (filter (\<lambda>l. candidate l = candidate (ls ! k)) pre) + occurrence ls k)
         (snd (snd (ls ! k)))"
proof (induction ls arbitrary: pre k)
  case Nil
  then show ?case by simp
next
  case (Cons l ls)
  obtain d c b where l: "l = (d, c, b)" by (cases l) auto
  have step: "resolve_all (tab pre) (l # ls) =
      suffixed (path_join d c) (length (filter (\<lambda>l. candidate l = path_join d c) pre)) b
        # resolve_all (tab (pre @ [l])) ls"
    by (simp add: l resolve_tab)
  show ?case
  proof (cases k)
    case 0
    with step l show ?thesis by (simp add: occurrence_def candidate_def)
  next
    case (Suc k')
    with Cons.prems have k': "k' < length ls" by simp
    have occ: "length (filter (\<lambda>x. candidate x = candidate (ls ! k')) (pre @ [l]))
          + occurrence ls k'
        = length (filter (\<lambda>x. candidate x = candidate (ls ! k')) pre)
          + occurrence (l # ls) (Suc k')"
      by (simp add: occurrence_def)
    have "resolve_all (tab pre) (l # ls) ! k = resolve_all (tab (pre @ [l])) ls ! k'"
      using step Suc by simp
    also have "\<dots> = suffixed (candidate (ls ! k'))
         (length (filter (\<lambda>x. candidate x = candidate (ls ! k')) (pre @ [l])) + occurrence ls k')
         (snd (snd (ls ! k')))"
      by (rule Cons.IH[OF k'])
    also have "\<dots> = suffixed (candidate (ls ! k'))
         (length (filter (\<lambda>x. candidate x = candidate (ls ! k')) pre)
            + occurrence (l # ls) (Suc k'))
         (snd (snd (ls ! k')))"
      by (simp only: occ)
    finally show ?thesis using Suc by simp
  qed
qed

lemma suffixed_0_ne:
  assumes "0 < m"
  shows "suffixed fp 0 b \<noteq> suffixed fp m b'"
proof -
  obtain r e where s: "splitext fp = (r, e)" by (cases "splitext fp")
  from splitext_parts[OF s] have "r @ e = fp" by simp
  then have "length (suffixed fp m b') > length fp"
    using assms s by (auto simp: suffixed_def)
  moreover have "suffixed fp 0 b = fp" by (simp add: suffixed_def)
  ultimately show ?thesis by auto
qed

lemma paren_eq:
  assumes "str_nat n @ '')'' @ e = str_nat m @ '')'' @ e"
  shows "n = m"
proof -
  from assms have "str_nat n = str_nat m" by simp
  then show ?thesis by (rule str_nat_inj)
qed

lemma suffixed_inj:
  assumes "n \<noteq> m"
  shows "suffixed fp n b \<noteq> suffixed fp m b'"
proof (cases "n = 0 \<or> m = 0")
  case True
  then show ?thesis
  proof
    assume "n = 0"
    with assms have "0 < m" by simp
    from suffixed_0_ne[OF this] \<open>n = 0\<close> show ?thesis by simp
  next
    assume "m = 0"
    with assms have "0 < n" by simp
    from suffixed_0_ne[OF this, of fp b' b] \<open>m = 0\<close> show ?thesis by metis
  qed
next
  case False
  then have pos: "0 < n" "0 < m" by simp_all
  obtain r e where s: "splitext fp = (r, e)" by (cases "splitext fp")
  from splitext_parts[OF s] have fp: "r @ e = fp" and e: "e = [] \<or> hd e = CHR ''.''"
    by simp_all
  have dd: "fp @ ''('' @ str_nat n @ '')'' \<noteq> fp @ ''('' @ str_nat m @ '')''"
    using assms str_nat_inj by auto
  have ff: "r @ ''('' @ str_nat n @ '')'' @ e \<noteq> r @ ''('' @ str_nat m @ '')'' @ e"
    using assms str_nat_inj by auto
  have df: "fp @ ''('' @ str_nat x @ '')'' \<noteq> r @ ''('' @ str_nat y @ '')'' @ e" if "x \<noteq> y" for x y
  proof (cases "e = []")
    case True
    with fp that str_nat_inj show ?thesis by auto
  next
    case False
    with e obtain e' where e': "e = CHR ''.'' # e'" by (cases e) auto
    show ?thesis
    proof
      assume "fp @ ''('' @ str_nat x @ '')'' = r @ ''('' @ str_nat y @ '')'' @ e"
      with fp have "r @ (e @ ''('' @ str_nat x @ '')'') = r @ (''('' @ str_nat y @ '')'' @ e)"
        by (metis append.assoc)
      then have "e @ ''('' @ str_nat x @ '')'' = ''('' @ str_nat y @ '')'' @ e" by simp
      with e' show False by simp
    qed
  qed
  show ?thesis
  proof (cases b; cases b')
    assume "b" "b'"
    with pos dd show ?thesis by (simp add: suffixed_def)
  next
    assume "b" "\<not> b'"
    with pos df[OF assms] s show ?thesis by (simp add: suffixed_def)
  next
    assume "\<not> b" "b'"
    with pos df[of m n] assms s show ?thesis by (simp add: suffixed_def)
  next
    assume "\<not> b" "\<not> b'"
    with pos ff s show ?thesis by (simp add: suffixed_def)
  qed
qed

lemma occurrence_lt:
  assumes "i < j" "j < length ls" "candidate (ls ! i) = candidate (ls ! j)"
  shows "occurrence ls i < occurrence ls j"
proof -
  from assms(1,2) have il: "i < length (take j ls)" by simp
  have "take j ls = take i (take j ls) @ (take j ls) ! i # drop (Suc i) (take j ls)"
    using il by (rule id_take_nth_drop)
  moreover have "take i (take j ls) = take i ls" using assms(1) by (simp add: min_def)
  moreover have "(take j ls) ! i = ls ! i" using assms(1) by simp
  ultimately have tk: "take j ls = take i ls @ ls ! i # drop (Suc i) (take j ls)" by simp
  have "occurrence ls j = length (filter (\<lambda>l. candidate l = candidate (ls ! j)) (take j ls))"
    by (simp add: occurrence_def)
  also have "\<dots> = length (filter (\<lambda>l. candidate l = candidate (ls ! j)) (take i ls))
      + length (filter (\<lambda>l. candidate l = candidate (ls ! j)) (ls ! i # drop (Suc i) (take j ls)))"
    by (subst tk) simp
  also have "\<dots> > occurrence ls i"
    using assms(3) by (simp add: occurrence_def)
  finally show ?thesis .
qed

text \<open>
  C6. For every sequence \<open>ls\<close> of lookups against one table that starts empty, the
  result of the \<open>k\<close>-th lookup is fixed by the sequence: it is the candidate path itself
  when no earlier lookup had the same candidate path, and otherwise, with \<open>n \<ge> 1\<close> the
  number of earlier lookups of the same candidate path, the candidate path with \<open>(n)\<close>
  put before the extension (for a file) or at the end (for a directory). Two lookups
  of the same candidate path always get different results.
\<close>

theorem resolver_deterministic:
  "(k < length ls \<longrightarrow>
      resolve_all Map.empty ls ! k
        = suffixed (candidate (ls ! k)) (occurrence ls k) (snd (snd (ls ! k))))
   \<and> (i < j \<and> j < length ls \<and> candidate (ls ! i) = candidate (ls ! j) \<longrightarrow>
        resolve_all Map.empty ls ! i \<noteq> resolve_all Map.empty ls ! j)"
proof (intro conjI impI)
  assume "k < length ls"
  from resolve_all_tab[OF this, of "[]"] show "resolve_all Map.empty ls ! k
        = suffixed (candidate (ls ! k)) (occurrence ls k) (snd (snd (ls ! k)))"
    by (simp add: tab_Nil)
next
  assume h: "i < j \<and> j < length ls \<and> candidate (ls ! i) = candidate (ls ! j)"
  then have i: "i < length ls" and j: "j < length ls" by simp_all
  from h occurrence_lt have ne: "occurrence ls i \<noteq> occurrence ls j" by fastforce
  from resolve_all_tab[OF i, of "[]"] resolve_all_tab[OF j, of "[]"] h
    suffixed_inj[OF ne, of "candidate (ls ! j)"]
  show "resolve_all Map.empty ls ! i \<noteq> resolve_all Map.empty ls ! j"
    by (simp add: tab_Nil)
qed


theorem resolver_deterministic_witness:
  "resolve_all Map.empty
     [(''out'', ''a.txt'', False), (''out'', ''d'', True), (''out'', ''a.txt'', False),
      (''out'', ''d'', True)]
     = [''out/a.txt'', ''out/d'', ''out/a(1).txt'', ''out/d(1)'']
   \<and> resolve_all Map.empty
     [(''out'', ''a.txt'', False), (''out'', ''d'', True), (''out'', ''a.txt'', False),
      (''out'', ''d'', True)] ! 0
     \<noteq> resolve_all Map.empty
     [(''out'', ''a.txt'', False), (''out'', ''d'', True), (''out'', ''a.txt'', False),
      (''out'', ''d'', True)] ! 2"
proof -
  let ?ls = "[(''out'', ''a.txt'', False), (''out'', ''d'', True),
      (''out'', ''a.txt'', False), (''out'', ''d'', True)]"
  have b: "(0::nat) < 2 \<and> 2 < length ?ls \<and> candidate (?ls ! 0) = candidate (?ls ! 2)"
    by (simp add: candidate_def)
  have c: "resolve_all Map.empty ?ls = [''out/a.txt'', ''out/d'', ''out/a(1).txt'', ''out/d(1)'']"
    by code_simp
  from resolver_deterministic[of 2 ?ls 0 2] b
  have "resolve_all Map.empty ?ls ! 0 \<noteq> resolve_all Map.empty ?ls ! 2" by blast
  with c show ?thesis by (intro conjI)
qed

lemma resolve_in_files:
  "resolve_in d c b st = (st', r) \<Longrightarrow> files_info st' = files_info st"
  by (auto simp: resolve_in_def split: prod.splits)

lemma build_prefix:
  "\<exists>ys. files_info (build_content_tree ph pd cid c st) = files_info st @ ys"
  "\<exists>ys. files_info (build_children ph ap cs st) = files_info st @ ys"
proof (induction ph pd cid c st and ph ap cs st rule: build_content_tree_build_children.induct)
  case (5 ph parent_dir content_id nm lnk st)
  then show ?case
    by (auto simp: register_file_def split: prod.splits dest: resolve_in_files)
next
  case (6 ph parent_dir content_id folder_name children st)
  obtain st' r where r: "resolve_in parent_dir folder_name True st = (st', r)"
    by (cases "resolve_in parent_dir folder_name True st")
  from "6.IH"[OF r[symmetric]] resolve_in_files[OF r] r show ?case by auto
next
  case (8 ph absolute_path stop nm lnk cs st)
  show ?case
  proof (cases stop)
    case True
    then show ?thesis by simp
  next
    case False
    obtain st' r where r: "resolve_in absolute_path nm False st = (st', r)"
      by (cases "resolve_in absolute_path nm False st")
    from "8.IH"[OF False r[symmetric]] obtain ys where
      "files_info (build_children ph absolute_path cs (register_file r lnk st'))
         = files_info (register_file r lnk st') @ ys" by blast
    with resolve_in_files[OF r] r False show ?thesis
      by (simp add: register_file_def)
  qed
next
  case (9 ph absolute_path stop child_id c cs st)
  show ?case
  proof (cases stop)
    case True
    then show ?thesis by simp
  next
    case False
    from "9.IH"(1)[OF False] obtain ys where
      a: "files_info (build_content_tree ph absolute_path child_id c st) = files_info st @ ys"
      by blast
    from "9.IH"(2)[OF False] obtain zs where
      "files_info (build_children ph absolute_path cs
          (build_content_tree ph absolute_path child_id c st))
        = files_info (build_content_tree ph absolute_path child_id c st) @ zs" by blast
    with a False show ?thesis by simp
  qed
qed (simp_all add: add_error_def)

lemma resolve_registered:
  assumes "pc (path_join d c) = Some 0"
  shows "resolve_naming_collision pc d c b
           = (pc(path_join d c \<mapsto> 1), suffixed (path_join d c) 1 b)"
  using assms suffixed_int[of 1 "path_join d c" b]
  by (simp add: resolve_naming_collision_def Let_def split: prod.splits)

lemma resolve_fresh:
  assumes "pc (path_join d c) = None"
  shows "resolve_naming_collision pc d c b = (pc(path_join d c \<mapsto> 0), path_join d c)"
  using assms by (simp add: resolve_naming_collision_def Let_def)

lemma resolve_other:
  assumes "path_join d c \<noteq> fp"
  shows "fst (resolve_naming_collision pc d c b) fp = pc fp"
  using assms by (simp add: resolve_naming_collision_def Let_def split: prod.splits)

text \<open>
  C10. When the directory is the root of the tree (the basename of \<open>parent_dir\<close> is the
  content id), the name resolved for the root folder is dropped and the children are
  placed under \<open>parent_dir\<close>, but the candidate path of the root folder has been entered
  in the table with count 0. Lookups of other candidate paths leave that entry as it
  is, and the next lookup of the same candidate path gets the suffix \<open>(1)\<close>, a name that
  differs from the candidate path; so a first child file with the name of the root
  folder is registered under its name with \<open>(1)\<close>, although no file of that name is on
  disk.
\<close>

theorem root_candidate_registered:
  "(basename parent_dir = content_id \<and> pathing_count st (path_join parent_dir nm) = None \<longrightarrow>
      build_content_tree ph parent_dir content_id (Folder nm cs) st
        = build_children ph parent_dir cs
            (st\<lparr>pathing_count := (pathing_count st)(path_join parent_dir nm \<mapsto> 0)\<rparr>))
   \<and> (path_join d c \<noteq> fp \<longrightarrow> fst (resolve_naming_collision pc d c b) fp = pc fp)
   \<and> (pc (path_join d c) = Some 0 \<longrightarrow>
        snd (resolve_naming_collision pc d c b) = suffixed (path_join d c) 1 b
        \<and> suffixed (path_join d c) 1 b \<noteq> path_join d c)
   \<and> (basename parent_dir = content_id \<longrightarrow>
        take 1 (files_info (build_content_tree ph parent_dir content_id
                  (Folder nm (File_entry False nm lnk # cs)) init_build))
          = [(''0'', \<lparr>path = dirname (suffixed (path_join parent_dir nm) 1 False),
                      filename = basename (suffixed (path_join parent_dir nm) 1 False),
                      link = lnk\<rparr>)])"
proof (intro conjI impI)
  assume "basename parent_dir = content_id \<and> pathing_count st (path_join parent_dir nm) = None"
  then show "build_content_tree ph parent_dir content_id (Folder nm cs) st
        = build_children ph parent_dir cs
            (st\<lparr>pathing_count := (pathing_count st)(path_join parent_dir nm \<mapsto> 0)\<rparr>)"
    by (simp add: resolve_in_def resolve_fresh)
next
  assume "path_join d c \<noteq> fp"
  then show "fst (resolve_naming_collision pc d c b) fp = pc fp" by (rule resolve_other)
next
  assume "pc (path_join d c) = Some 0"
  then show "snd (resolve_naming_collision pc d c b) = suffixed (path_join d c) 1 b"
    by (simp add: resolve_registered)
next
  assume "pc (path_join d c) = Some 0"
  have "suffixed (path_join d c) 0 b \<noteq> suffixed (path_join d c) 1 b"
    by (rule suffixed_0_ne) simp
  then show "suffixed (path_join d c) 1 b \<noteq> path_join d c"
    by (simp add: suffixed_def)
next
  assume root: "basename parent_dir = content_id"
  define fp where "fp = path_join parent_dir nm"
  define st1 where "st1 = init_build\<lparr>pathing_count := [fp \<mapsto> 0]\<rparr>"
  define st2 where "st2 = register_file (suffixed fp 1 False) lnk (st1\<lparr>pathing_count := [fp \<mapsto> 1]\<rparr>)"
  have a: "build_content_tree ph parent_dir content_id
                  (Folder nm (File_entry False nm lnk # cs)) init_build
      = build_children ph parent_dir (File_entry False nm lnk # cs) st1"
    using root by (simp add: resolve_in_def resolve_fresh init_build_def st1_def fp_def)
  have "resolve_naming_collision [fp \<mapsto> 0] parent_dir nm False
      = ([fp \<mapsto> 1], suffixed fp 1 False)"
    unfolding fp_def by (subst resolve_registered) simp_all
  then have b: "build_children ph parent_dir (File_entry False nm lnk # cs) st1
      = build_children ph parent_dir cs st2"
    by (simp add: resolve_in_def st1_def st2_def fp_def)
  have c: "files_info st2 = [(''0'', \<lparr>path = dirname (suffixed fp 1 False),
                      filename = basename (suffixed fp 1 False), link = lnk\<rparr>)]"
    by (simp add: st2_def st1_def register_file_def init_build_def str_nat.simps digit_char_def)
  from build_prefix(2)[of ph parent_dir cs st2] obtain ys where
    "files_info (build_children ph parent_dir cs st2) = files_info st2 @ ys" by blast
  with a b c show "take 1 (files_info (build_content_tree ph parent_dir content_id
                  (Folder nm (File_entry False nm lnk # cs)) init_build))
          = [(''0'', \<lparr>path = dirname (suffixed (path_join parent_dir nm) 1 False),
                      filename = basename (suffixed (path_join parent_dir nm) 1 False),
                      link = lnk\<rparr>)]"
    by (simp add: fp_def)
qed

theorem root_candidate_registered_witness:
  "basename ''out/ID'' = ''ID''
   \<and> pathing_count init_build (path_join ''out/ID'' ''X'') = None
   \<and> files_info (build_content_tree None ''out/ID'' ''ID''
        (Folder ''X'' [File_entry False ''X'' ''l1'', File_entry False ''y.txt'' ''l2''])
        init_build)
      = [(''0'', \<lparr>path = ''out/ID'', filename = ''X(1)'', link = ''l1''\<rparr>),
         (''1'', \<lparr>path = ''out/ID'', filename = ''y.txt'', link = ''l2''\<rparr>)]
   \<and> take 1 (files_info (build_content_tree None ''out/ID'' ''ID''
        (Folder ''X'' [File_entry False ''X'' ''l1'', File_entry False ''y.txt'' ''l2''])
        init_build))
      = [(''0'', \<lparr>path = dirname (suffixed (path_join ''out/ID'' ''X'') 1 False),
                  filename = basename (suffixed (path_join ''out/ID'' ''X'') 1 False),
                  link = ''l1''\<rparr>)]
   \<and> [path_join ''out/ID'' ''X'' \<mapsto> (0::int)] (path_join ''out/ID'' ''X'') = Some 0
   \<and> snd (resolve_naming_collision [path_join ''out/ID'' ''X'' \<mapsto> 0] ''out/ID'' ''X'' False)
       = suffixed (path_join ''out/ID'' ''X'') 1 False
   \<and> path_join ''out/ID'' ''y.txt'' \<noteq> path_join ''out/ID'' ''X''"
proof -
  have a: "basename ''out/ID'' = ''ID''" by code_simp
  have b: "pathing_count init_build (path_join ''out/ID'' ''X'') = None"
    by (simp add: init_build_def)
  have c: "files_info (build_content_tree None ''out/ID'' ''ID''
        (Folder ''X'' [File_entry False ''X'' ''l1'', File_entry False ''y.txt'' ''l2''])
        init_build)
      = [(''0'', \<lparr>path = ''out/ID'', filename = ''X(1)'', link = ''l1''\<rparr>),
         (''1'', \<lparr>path = ''out/ID'', filename = ''y.txt'', link = ''l2''\<rparr>)]"
    by code_simp
  have d: "[path_join ''out/ID'' ''X'' \<mapsto> (0::int)] (path_join ''out/ID'' ''X'') = Some 0"
    by simp
  have e: "path_join ''out/ID'' ''y.txt'' \<noteq> path_join ''out/ID'' ''X''" by code_simp
  from root_candidate_registered[of "''out/ID''" "''ID''" init_build "''X''" None
      "[File_entry False ''y.txt'' ''l2'']" "''out/ID''" "''X''" "path_join ''out/ID'' ''y.txt''"
      "[path_join ''out/ID'' ''X'' \<mapsto> 0]" False "''l1''"] a b c d e
  show ?thesis by simp
qed

subsection \<open>Unexpected statuses in the chunked fetcher\<close>

lemma get_response_fst: "fst (get_response os errs) = fst (get_response os [])"
proof (induction os arbitrary: errs)
  case Nil
  then show ?case by simp
next
  case (Cons o1 os)
  show ?case
  proof (cases o1)
    case (Got r)
    then show ?thesis by simp
  next
    case Timed_out
    with Cons show ?thesis by simp
  next
    case (Raised x)
    with Cons[of "errs @ [x]"] Cons[of "[x]"] show ?thesis by simp
  qed
qed

text \<open>
  The branch for 403, 404, 405 and 500 is reached only by a response that is truthy and
  has one of these statuses; for an object of \<open>requests\<close> the two exclude each other.
\<close>

lemma fatal_status_not_ok: "s \<in> set [403, 404, 405, 500] \<Longrightarrow> \<not> response_ok s"
  by (auto simp: response_ok_def)

lemma attempt_fatal_branch:
  assumes "\<not> stop_set e"
    and "get_response (take n (gets e)) (d_errors st) = (Some r, errs)"
    and "truthy r" and "status_code r \<in> set [403, 404, 405, 500]"
  shows "attempt n fname e st =
           (Returned False,
            st\<lparr>d_errors := errs @ [''HTTP '' @ str_int (status_code r) @ '' for '' @ fname]\<rparr>)"
  using assms by (simp add: attempt_def log_error_def)

lemma attempt_unexpected:
  assumes "unexpected_attempt n e"
  shows "attempt n fname e st
           = (Next_attempt, st\<lparr>d_errors := snd (get_response (take n (gets e)) (d_errors st))\<rparr>)"
proof -
  obtain resp errs where g: "get_response (take n (gets e)) (d_errors st) = (resp, errs)"
    by (cases "get_response (take n (gets e)) (d_errors st)")
  have "resp = fst (get_response (take n (gets e)) [])"
    using g get_response_fst[of "take n (gets e)" "d_errors st"] by simp
  with assms obtain r where r: "resp = Some r" "truthy r = response_ok (status_code r)"
    "\<not> expected_status (part_size e) (status_code r)" and ns: "\<not> stop_set e"
    by (auto simp: unexpected_attempt_def split: option.splits)
  show ?thesis
  proof (cases "truthy r")
    case False
    with g r ns show ?thesis by (simp add: attempt_def)
  next
    case True
    with r(2) have ok: "response_ok (status_code r)" by simp
    with fatal_status_not_ok have nf: "status_code r \<notin> set [403, 404, 405, 500]" by blast
    from r(3) have "(part_size e = 0 \<and> status_code r \<notin> set [200, 206])
        \<or> (part_size e > 0 \<and> status_code r \<noteq> 206)"
      by (auto simp: expected_status_def split: if_splits)
    with g r(1) ns True nf show ?thesis by (auto simp: attempt_def)
  qed
qed

lemma retry_loop_unexpected:
  "list_all (unexpected_attempt n) es \<Longrightarrow>
     fst (retry_loop n fname es st) = False
     \<and> d_files_downloaded (snd (retry_loop n fname es st)) = d_files_downloaded st"
proof (induction es arbitrary: st)
  case Nil
  then show ?case by simp
next
  case (Cons e es)
  from Cons.prems have u: "unexpected_attempt n e" and rest: "list_all (unexpected_attempt n) es"
    by simp_all
  from attempt_unexpected[OF u, of fname st] Cons.IH[OF rest] show ?case by simp
qed

text \<open>
  C7. In the retry loop of \<open>_download_file\<close>, an attempt whose request gets a response
  of \<open>requests\<close> with a status other than the expected one (200 or 206 for a fresh
  request, 206 for a range request) never returns from the function: it records no
  error of its own, counts no file, and the loop goes on with the next attempt. The
  loop makes at most \<open>number_retries\<close> attempts, and when all of them meet an unexpected
  status the unit fails only then.
\<close>

theorem unexpected_status_retried:
  "(unexpected_attempt n e \<longrightarrow>
      fst (attempt n fname e st) = Next_attempt
      \<and> d_errors (snd (attempt n fname e st))
          = snd (get_response (take n (gets e)) (d_errors st))
      \<and> d_files_downloaded (snd (attempt n fname e st)) = d_files_downloaded st
      \<and> retry_loop n fname (e # es) st = retry_loop n fname es (snd (attempt n fname e st)))
   \<and> (\<not> exists_nonempty fe \<and> list_all (unexpected_attempt n) (take n (attempts_env fe)) \<longrightarrow>
        fst (download_file n fi fe st) = False
        \<and> d_files_downloaded (snd (download_file n fi fe st)) = d_files_downloaded st)"
proof (intro conjI impI)
  assume u: "unexpected_attempt n e"
  note a = attempt_unexpected[OF u, of fname st]
  from a show "fst (attempt n fname e st) = Next_attempt" by simp
  from a show "d_errors (snd (attempt n fname e st))
          = snd (get_response (take n (gets e)) (d_errors st))" by simp
  from a show "d_files_downloaded (snd (attempt n fname e st)) = d_files_downloaded st"
    by simp
  from a show "retry_loop n fname (e # es) st = retry_loop n fname es (snd (attempt n fname e st))"
    by simp
next
  assume h: "\<not> exists_nonempty fe \<and> list_all (unexpected_attempt n) (take n (attempts_env fe))"
  then have d: "download_file n fi fe st
      = retry_loop n (filename fi) (take n (attempts_env fe)) st"
    by (simp add: download_file_def)
  from h retry_loop_unexpected[of n "take n (attempts_env fe)" "filename fi" st]
  show "fst (download_file n fi fe st) = False"
    "d_files_downloaded (snd (download_file n fi fe st)) = d_files_downloaded st"
    by (simp_all add: d)
qed

theorem unexpected_status_retried_witness:
  "unexpected_attempt 5 \<lparr>stop_set = False, part_size = 0, gets = [Got not_found]\<rparr>
   \<and> \<not> exists_nonempty not_found_env
   \<and> list_all (unexpected_attempt 5) (take 5 (attempts_env not_found_env))
   \<and> attempt 5 ''a.bin'' \<lparr>stop_set = False, part_size = 0, gets = [Got not_found]\<rparr>
        \<lparr>d_errors = [], d_files_downloaded = 0\<rparr>
       = (Next_attempt, \<lparr>d_errors = [], d_files_downloaded = 0\<rparr>)
   \<and> fst (download_file 5 \<lparr>path = ''out'', filename = ''a.bin'', link = ''l''\<rparr> not_found_env
            \<lparr>d_errors = [], d_files_downloaded = 0\<rparr>) = False"
proof -
  let ?e = "\<lparr>stop_set = False, part_size = 0, gets = [Got not_found]\<rparr>"
  let ?st = "\<lparr>d_errors = [], d_files_downloaded = 0\<rparr>"
  have a: "unexpected_attempt 5 ?e" by code_simp
  have b: "\<not> exists_nonempty not_found_env" by code_simp
  have c: "list_all (unexpected_attempt 5) (take 5 (attempts_env not_found_env))" by code_simp
  have d: "attempt 5 ''a.bin'' ?e ?st = (Next_attempt, ?st)" by code_simp
  from unexpected_status_retried[of 5 ?e "''a.bin''" ?st "[]" not_found_env
      "\<lparr>path = ''out'', filename = ''a.bin'', link = ''l''\<rparr>"] b c
  have "fst (download_file 5 \<lparr>path = ''out'', filename = ''a.bin'', link = ''l''\<rparr> not_found_env
            ?st) = False" by blast
  with a b c d show ?thesis by (intro conjI)
qed

subsection \<open>Nothing to download\<close>

text \<open>
  C8. When \<open>download\<close> gets as far as the content tree (the URL gives a content id and
  an account is set up) and the tree registers no file, the result is decided by the
  error list: with errors it has \<open>success = False\<close>, the errors, and the last error as
  its message; without errors it has \<open>success = True\<close>, an empty error list and the
  message \<open>No files found in content\<close>. Both report 0 files downloaded out of 0.
\<close>

theorem download_nothing_found:
  assumes "parse_content_id (source_url env) = Some content_id" and "content_id \<noteq> []"
    and "set_account_token (take (number_retries env) (account env)) [] = (True, errs)"
    and "files_info (build_of env content_id errs) = []"
  shows "(errors (build_of env content_id errs) \<noteq> [] \<longrightarrow>
           \<not> success (download env)
           \<and> r_errors (download env) = errors (build_of env content_id errs)
           \<and> r_message (download env) = last (errors (build_of env content_id errs)))
       \<and> (errors (build_of env content_id errs) = [] \<longrightarrow>
           success (download env)
           \<and> r_errors (download env) = []
           \<and> r_message (download env) = ''No files found in content'')
       \<and> r_files_downloaded (download env) = 0 \<and> r_total_files (download env) = 0"
  using assms by (simp add: download_def Let_def)

theorem download_nothing_found_witness:
  "parse_content_id (source_url empty_folder_env) = Some ''AbC''
   \<and> set_account_token (take (number_retries empty_folder_env) (account empty_folder_env)) []
       = (True, [])
   \<and> files_info (build_of empty_folder_env ''AbC'' []) = []
   \<and> errors (build_of empty_folder_env ''AbC'' []) = []
   \<and> success (download empty_folder_env)
   \<and> r_message (download empty_folder_env) = ''No files found in content''
   \<and> parse_content_id (source_url api_error_env) = Some ''AbC''
   \<and> set_account_token (take (number_retries api_error_env) (account api_error_env)) []
       = (True, [])
   \<and> files_info (build_of api_error_env ''AbC'' []) = []
   \<and> errors (build_of api_error_env ''AbC'' []) = [''API error: error-notFound'']
   \<and> \<not> success (download api_error_env)
   \<and> r_message (download api_error_env) = ''API error: error-notFound''"
proof -
  have a1: "parse_content_id (source_url empty_folder_env) = Some ''AbC''" by code_simp
  have a2: "''AbC'' \<noteq> []" by simp
  have a3: "set_account_token (take (number_retries empty_folder_env)
      (account empty_folder_env)) [] = (True, [])" by code_simp
  have a4: "files_info (build_of empty_folder_env ''AbC'' []) = []" by code_simp
  have a5: "errors (build_of empty_folder_env ''AbC'' []) = []" by code_simp
  have b1: "parse_content_id (source_url api_error_env) = Some ''AbC''" by code_simp
  have b3: "set_account_token (take (number_retries api_error_env)
      (account api_error_env)) [] = (True, [])" by code_simp
  have b4: "files_info (build_of api_error_env ''AbC'' []) = []" by code_simp
  have b5: "errors (build_of api_error_env ''AbC'' []) = [''API error: error-notFound'']"
    by code_simp
  from download_nothing_found[OF a1 a2 a3 a4] a5
  have x: "success (download empty_folder_env)"
    "r_message (download empty_folder_env) = ''No files found in content''" by simp_all
  from download_nothing_found[OF b1 a2 b3 b4] b5
  have y: "\<not> success (download api_error_env)"
    "r_message (download api_error_env) = ''API error: error-notFound''" by simp_all
  from a1 a3 a4 a5 b1 b3 b4 b5 x y show ?thesis by (intro conjI)
qed

subsection \<open>Two observations on the model\<close>

text \<open>
  Whatever the truth value of the response object, a status that is neither expected
  nor one of 403, 404, 405 and 500 sends the loop to its next attempt.
\<close>

lemma attempt_unexpected_any_truth:
  assumes "\<not> stop_set e"
    and "get_response (take n (gets e)) (d_errors st) = (Some r, errs)"
    and "\<not> expected_status (part_size e) (status_code r)"
    and "status_code r \<notin> set [403, 404, 405, 500]"
  shows "attempt n fname e st = (Next_attempt, st\<lparr>d_errors := errs\<rparr>)"
proof -
  from assms(3) have "(part_size e = 0 \<and> status_code r \<notin> set [200, 206])
      \<or> (part_size e > 0 \<and> status_code r \<noteq> 206)"
    by (auto simp: expected_status_def split: if_splits)
  with assms(1,2,4) show ?thesis by (auto simp: attempt_def Let_def)
qed

text \<open>
  A pause that the Runner does not see at a line (the API terminated the process and
  the output ended) is not handled by the pause check: the exit code decides, and the
  job ends \<open>failed\<close>.
\<close>

lemma pause_at_end_of_output:
  "status (final_job (run_download
      (paused_env\<lparr>reads := [], ext_at_eof := [Ext_pause]\<rparr>) job0)) = Failed
   \<and> message (final_job (run_download
      (paused_env\<lparr>reads := [], ext_at_eof := [Ext_pause]\<rparr>) job0))
       = ''Failed with exit code -15''"
  by code_simp

end
